theory Spec2Isabelle
  imports Main "HOL-Library.AList" "HOL-Library.Char_ord" "HOL-Library.List_Lexorder"
begin

text \<open>
  A transactional table store over an object store with an atomic put-if-absent
  (\<^verbatim>\<open>pydl.py\<close>): the object store, the actions and data objects with their JSON
  documents, the client with its transaction (\<open>new_tx\<close>, \<open>create_table\<close>,
  \<open>write_row\<close>, \<open>flush_rows\<close>, \<open>scan\<close>, \<open>commit_tx\<close>) and the scan cursor, as
  functions on explicit state; then the properties of the specification, C1 to C10.
\<close>

section \<open>JSON documents and Python exceptions\<close>

text \<open>
  Every blob the client writes is \<^verbatim>\<open>json.dumps(d).encode('utf-8')\<close> and every blob it
  reads goes through \<^verbatim>\<open>json.loads\<close>.  The two library calls are taken as inverse to each
  other on JSON documents, so a blob is modelled as the document itself.  A Python dict is
  an association list in insertion order; \<open>map_of\<close> is the lookup and \<open>AList.update\<close>
  the assignment (in place for a known key, at the end for a new one).  Floats do not
  occur in the client's own documents and are left out.
\<close>

datatype json =
    JNull
  | JBool bool
  | JInt int
  | JStr string
  | JArr "json list"
  | JObj "(string \<times> json) list"

datatype error =
    ExistingTransactionError
  | NoTransactionError
  | TableExistsError
  | NoSuchTableError
  | ConcurrentCommitError
  | FileExistsError
  | FileNotFoundError
  | OSError nat
  | KeyError string
  | TypeError
  | AttributeError
  | IndexError
  | UnsupportedAction json
  | StopIteration

text \<open>Sequencing of calls that may raise: the first exception ends the computation.\<close>

definition and_then :: "error + 'a \<Rightarrow> ('a \<Rightarrow> error + 'b) \<Rightarrow> error + 'b" where
  "and_then m f = (case m of Inl e \<Rightarrow> Inl e | Inr x \<Rightarrow> f x)"

text \<open>\<^verbatim>\<open>d[key]\<close> on a decoded document: only a dict can be subscripted by a string.\<close>

definition subscript :: "json \<Rightarrow> string \<Rightarrow> error + json" where
  "subscript d k =
     (case d of
        JObj kvs \<Rightarrow> (case map_of kvs k of None \<Rightarrow> Inl (KeyError k) | Some v \<Rightarrow> Inr v)
      | _ \<Rightarrow> Inl TypeError)"

text \<open>
  Python is dynamically typed; the model fixes the types of the spec's data model (names
  and tables are strings, ids and lengths integers, row batches lists).  A document
  whose field has another JSON type is outside that typing and the typed readers below
  answer \<open>TypeError\<close> for it.
\<close>

definition as_str :: "json \<Rightarrow> error + string" where
  "as_str j = (case j of JStr s \<Rightarrow> Inr s | _ \<Rightarrow> Inl TypeError)"

definition as_int :: "json \<Rightarrow> error + int" where
  "as_int j = (case j of JInt i \<Rightarrow> Inr i | _ \<Rightarrow> Inl TypeError)"

definition as_list :: "json \<Rightarrow> error + json list" where
  "as_list j = (case j of JArr xs \<Rightarrow> Inr xs | _ \<Rightarrow> Inl TypeError)"

definition as_dict :: "json \<Rightarrow> error + (string \<times> json) list" where
  "as_dict j = (case j of JObj kvs \<Rightarrow> Inr kvs | _ \<Rightarrow> Inl TypeError)"

section \<open>Object storage\<close>

text \<open>
  \<open>FileObjectStorage\<close>: a directory of named blobs.  \<open>put_if_absent\<close> writes a
  temporary file, hard-links it to the final name and removes the temporary file on every
  path, so a call either adds exactly the named blob or leaves the directory as it was.
  The link raises \<open>FileExistsError\<close> when the name is taken; any other failure of the
  file system is an \<open>OSError\<close>, decided here by a fault schedule: \<open>faults s i\<close> is
  the errno that hits the \<open>i\<close>-th call of \<open>put_if_absent\<close>, if any.  The temporary
  file is named by a uuid, which is never a name of one of the two blob families, and is
  gone when the call ends, so it is not part of \<open>files\<close>.  \<open>files\<close> is the directory
  in the order \<open>os.listdir\<close> returns it; \<open>read\<close> fails only on a missing name.
\<close>

record ObjectStorage =
  files :: "(string \<times> json) list"
  faults :: "nat \<Rightarrow> nat option"
  puts :: nat

definition put_if_absent :: "string \<Rightarrow> json \<Rightarrow> ObjectStorage \<Rightarrow> (error + unit) \<times> ObjectStorage" where
  "put_if_absent filename bytes s =
     (let s' = s\<lparr>puts := Suc (puts s)\<rparr> in
      case faults s (puts s) of
        Some errno \<Rightarrow> (Inl (OSError errno), s')
      | None \<Rightarrow>
          if filename \<in> fst ` set (files s) then (Inl FileExistsError, s')
          else (Inr (), s'\<lparr>files := files s @ [(filename, bytes)]\<rparr>))"

text \<open>\<^verbatim>\<open>FileObjectStorage(basedir)\<close> on a fresh directory, under the fault schedule \<open>f\<close>.\<close>

definition new_FileObjectStorage :: "(nat \<Rightarrow> nat option) \<Rightarrow> ObjectStorage" where
  "new_FileObjectStorage f = \<lparr>files = [], faults = f, puts = 0\<rparr>"

definition startswith :: "string \<Rightarrow> string \<Rightarrow> bool" where
  "startswith f p \<longleftrightarrow> take (length p) f = p"

definition list_prefix :: "string \<Rightarrow> ObjectStorage \<Rightarrow> string list" where
  "list_prefix p s = filter (\<lambda>f. startswith f p) (map fst (files s))"

definition read :: "string \<Rightarrow> ObjectStorage \<Rightarrow> error + json" where
  "read filename s =
     (case map_of (files s) filename of None \<Rightarrow> Inl FileNotFoundError | Some b \<Rightarrow> Inr b)"

section \<open>Actions, data objects and their documents\<close>

record DataobjectAction =
  ada_name :: string
  ada_table :: string

record ChangeMetadataAction =
  cma_table :: string
  cma_columns :: json

record Action =
  add_dataobject :: "DataobjectAction option"
  change_metadata :: "ChangeMetadataAction option"

definition DataobjectAction_to_dict :: "DataobjectAction \<Rightarrow> json" where
  "DataobjectAction_to_dict a =
     JObj [(''AddDataobject'', JObj [(''Name'', JStr (ada_name a)), (''Table'', JStr (ada_table a))])]"

definition ChangeMetadataAction_to_dict :: "ChangeMetadataAction \<Rightarrow> json" where
  "ChangeMetadataAction_to_dict a =
     JObj [(''ChangeMetadata'', JObj [(''Table'', JStr (cma_table a)), (''Columns'', cma_columns a)])]"

definition Action_to_dict :: "Action \<Rightarrow> json" where
  "Action_to_dict a =
     (case add_dataobject a of
        Some d \<Rightarrow> DataobjectAction_to_dict d
      | None \<Rightarrow>
          (case change_metadata a of
             Some m \<Rightarrow> ChangeMetadataAction_to_dict m
           | None \<Rightarrow> JObj []))"


record DataObject =
  do_table :: string
  do_name :: string
  do_data :: "json list"
  do_length :: int

definition DataObject_to_dict :: "DataObject \<Rightarrow> json" where
  "DataObject_to_dict d =
     JObj [(''Table'', JStr (do_table d)), (''Name'', JStr (do_name d)),
           (''Data'', JArr (do_data d)), (''Len'', JInt (do_length d))]"

text \<open>
  The readers of the two documents, as \<open>new_tx\<close> and \<open>ScanIterator.__next__\<close>
  take them apart (same keys, same order of the subscripts).  \<open>decode_action\<close> is the
  \<^verbatim>\<open>if 'AddDataobject' in action_data ... elif 'ChangeMetadata' in action_data ... else\<close>
  of \<open>new_tx\<close>: the first tag wins, and a document with neither tag is refused.
\<close>

definition decode_action :: "json \<Rightarrow> error + Action" where
  "decode_action action_data =
     and_then (as_dict action_data) (\<lambda>kvs.
       case map_of kvs ''AddDataobject'' of
         Some ada \<Rightarrow>
           and_then (subscript ada ''Name'') (\<lambda>n.
           and_then (subscript ada ''Table'') (\<lambda>t.
           and_then (as_str n) (\<lambda>n'.
           and_then (as_str t) (\<lambda>t'.
             Inr \<lparr>add_dataobject = Some \<lparr>ada_name = n', ada_table = t'\<rparr>,
                  change_metadata = None\<rparr>))))
       | None \<Rightarrow>
           (case map_of kvs ''ChangeMetadata'' of
              Some cmd \<Rightarrow>
                and_then (subscript cmd ''Table'') (\<lambda>t.
                and_then (subscript cmd ''Columns'') (\<lambda>cols.
                and_then (as_str t) (\<lambda>t'.
                  Inr \<lparr>add_dataobject = None,
                       change_metadata = Some \<lparr>cma_table = t', cma_columns = cols\<rparr>\<rparr>)))
            | None \<Rightarrow> Inl (UnsupportedAction action_data)))"

definition decode_dataobject :: "json \<Rightarrow> error + DataObject" where
  "decode_dataobject dataobject_data =
     and_then (subscript dataobject_data ''Table'') (\<lambda>t.
     and_then (subscript dataobject_data ''Name'') (\<lambda>n.
     and_then (subscript dataobject_data ''Data'') (\<lambda>d.
     and_then (subscript dataobject_data ''Len'') (\<lambda>l.
     and_then (as_str t) (\<lambda>t'.
     and_then (as_str n) (\<lambda>n'.
     and_then (as_list d) (\<lambda>d'.
     and_then (as_int l) (\<lambda>l'.
       Inr \<lparr>do_table = t', do_name = n', do_data = d', do_length = l'\<rparr>))))))))"

section \<open>Transactions and the client\<close>

text \<open>
  The row buffers of \<open>unflushed_data\<close> are Python lists that \<open>write_row\<close> appends to in
  place and that a cursor may hold on to, so they live in a heap: \<open>unflushed_data\<close>
  maps a table to the address of its list, \<open>heap\<close> gives each address its rows, and
  \<open>next_ref\<close> is the first address not yet handed out.  \<open>uuids\<close> is the random source
  behind \<open>uuidv4\<close> (\<open>drawn\<close> names drawn so far).
\<close>

record Transaction =
  tx_id :: int
  previous_actions :: "(string \<times> Action list) list"
  actions :: "(string \<times> Action list) list"
  tables :: "(string \<times> json) list"
  unflushed_data :: "(string \<times> nat) list"

definition new_Transaction :: "int \<Rightarrow> Transaction" where
  "new_Transaction i =
     \<lparr>tx_id = i, previous_actions = [], actions = [], tables = [], unflushed_data = []\<rparr>"

record client =
  os :: ObjectStorage
  tx :: "Transaction option"
  heap :: "nat \<Rightarrow> json list"
  next_ref :: nat
  uuids :: "nat \<Rightarrow> string"
  drawn :: nat

text \<open>\<^verbatim>\<open>Client(os_)\<close>: no transaction, nothing allocated, \<open>u\<close> the process's random source.\<close>

definition new_Client :: "ObjectStorage \<Rightarrow> (nat \<Rightarrow> string) \<Rightarrow> client" where
  "new_Client s u = \<lparr>os = s, tx = None, heap = (\<lambda>_. []), next_ref = 0, uuids = u, drawn = 0\<rparr>"

definition uuidv4 :: "client \<Rightarrow> string \<times> client" where
  "uuidv4 c = (uuids c (drawn c), c\<lparr>drawn := Suc (drawn c)\<rparr>)"

text \<open>\<^verbatim>\<open>d.setdefault(k, []).append(a)\<close> on a dict of action lists.\<close>

definition setdefault_append :: "string \<Rightarrow> Action \<Rightarrow> (string \<times> Action list) list \<Rightarrow> (string \<times> Action list) list" where
  "setdefault_append k a d =
     (case map_of d k of
        None \<Rightarrow> AList.update k [a] d
      | Some xs \<Rightarrow> AList.update k (xs @ [a]) d)"

subsection \<open>new_tx\<close>

text \<open>
  The three nested loops of \<open>new_tx\<close>, innermost first: over the action documents of
  one table, over the tables of one log entry, over the sorted log files.  The snapshot
  is built in a local transaction, so an exception leaves the client as it was.
\<close>

fun replay_actions :: "string \<Rightarrow> json list \<Rightarrow> Transaction \<Rightarrow> error + Transaction" where
  "replay_actions t [] x = Inr x"
| "replay_actions t (action_data # rest) x =
     and_then (decode_action action_data) (\<lambda>action.
       case add_dataobject action of
         Some _ \<Rightarrow>
           replay_actions t rest
             (x\<lparr>previous_actions := setdefault_append t action (previous_actions x)\<rparr>)
       | None \<Rightarrow>
           (case change_metadata action of
              Some cmd \<Rightarrow>
                replay_actions t rest
                  (x\<lparr>tables := AList.update t (cma_columns cmd) (tables x),
                     previous_actions := setdefault_append t action (previous_actions x)\<rparr>)
            | None \<Rightarrow> Inl (UnsupportedAction action_data)))"

fun replay_tables :: "(string \<times> json) list \<Rightarrow> Transaction \<Rightarrow> error + Transaction" where
  "replay_tables [] x = Inr x"
| "replay_tables ((t, acts) # rest) x =
     and_then (as_list acts) (\<lambda>acts'.
     and_then (replay_actions t acts' x) (\<lambda>x'.
       replay_tables rest x'))"

text \<open>The body of the loop over the log files: one decoded log entry folded into the snapshot.\<close>

definition replay_entry :: "json \<Rightarrow> int \<times> Transaction \<Rightarrow> error + int \<times> Transaction" where
  "replay_entry old_tx_data acc =
     (case acc of (max_id, x) \<Rightarrow>
        and_then (subscript old_tx_data ''Id'') (\<lambda>i.
        and_then (as_int i) (\<lambda>old_id.
        and_then (subscript old_tx_data ''Actions'') (\<lambda>a.
        and_then (as_dict a) (\<lambda>items.
        and_then (replay_tables items x) (\<lambda>x'.
          Inr (max max_id old_id, x')))))))"

fun replay_log :: "string list \<Rightarrow> ObjectStorage \<Rightarrow> int \<times> Transaction \<Rightarrow> error + int \<times> Transaction" where
  "replay_log [] s acc = Inr acc"
| "replay_log (tx_log_filename # rest) s acc =
     and_then (read tx_log_filename s) (\<lambda>old_tx_data.
     and_then (replay_entry old_tx_data acc) (\<lambda>acc'.
       replay_log rest s acc'))"

definition new_tx :: "client \<Rightarrow> (error + unit) \<times> client" where
  "new_tx c =
     (case tx c of
        Some _ \<Rightarrow> (Inl ExistingTransactionError, c)
      | None \<Rightarrow>
          (case replay_log (sort (list_prefix ''_log_'' (os c))) (os c) (0, new_Transaction 0) of
             Inl e \<Rightarrow> (Inl e, c)
           | Inr (max_id, x) \<Rightarrow> (Inr (), c\<lparr>tx := Some (x\<lparr>tx_id := max_id + 1\<rparr>)\<rparr>)))"

subsection \<open>create_table, write_row, flush_rows\<close>

definition create_table :: "string \<Rightarrow> json \<Rightarrow> client \<Rightarrow> (error + unit) \<times> client" where
  "create_table t columns c =
     (case tx c of
        None \<Rightarrow> (Inl NoTransactionError, c)
      | Some x \<Rightarrow>
          if t \<in> fst ` set (tables x) then (Inl TableExistsError, c)
          else
            (let action = \<lparr>add_dataobject = None,
                           change_metadata = Some \<lparr>cma_table = t, cma_columns = columns\<rparr>\<rparr>
             in (Inr (), c\<lparr>tx := Some (x\<lparr>tables := AList.update t columns (tables x),
                                          actions := setdefault_append t action (actions x)\<rparr>)\<rparr>)))"

definition table_filename :: "string \<Rightarrow> string \<Rightarrow> string" where
  "table_filename t n = ''_table_'' @ t @ ''_'' @ n"

definition flush_rows :: "string \<Rightarrow> client \<Rightarrow> (error + unit) \<times> client" where
  "flush_rows t c =
     (case tx c of
        None \<Rightarrow> (Inl NoTransactionError, c)
      | Some x \<Rightarrow>
          (case map_of (unflushed_data x) t of
             None \<Rightarrow> (Inr (), c)
           | Some r \<Rightarrow>
               if heap c r = [] then (Inr (), c)
               else
                 (let (n, c1) = uuidv4 c;
                      df = \<lparr>do_table = t, do_name = n, do_data = heap c r,
                            do_length = int (length (heap c r))\<rparr>;
                      (res, s') = put_if_absent (table_filename t (do_name df)) (DataObject_to_dict df) (os c1);
                      c2 = c1\<lparr>os := s'\<rparr>
                  in case res of
                       Inl e \<Rightarrow> (Inl e, c2)
                     | Inr _ \<Rightarrow>
                         (let action = \<lparr>add_dataobject = Some \<lparr>ada_name = do_name df, ada_table = t\<rparr>,
                                        change_metadata = None\<rparr>
                          in (Inr (),
                              c2\<lparr>tx := Some (x\<lparr>actions := setdefault_append t action (actions x),
                                                unflushed_data := AList.update t (next_ref c2) (unflushed_data x)\<rparr>),
                                 heap := (heap c2)(next_ref c2 := []),
                                 next_ref := Suc (next_ref c2)\<rparr>)))))"

text \<open>
  \<open>sz\<close> stands for the module constant \<open>DATAOBJECT_SIZE\<close>, the one configuration knob;
  the client as shipped is \<open>write_row DATAOBJECT_SIZE\<close>.
\<close>

definition write_row :: "nat \<Rightarrow> string \<Rightarrow> json \<Rightarrow> client \<Rightarrow> (error + unit) \<times> client" where
  "write_row sz t row c =
     (case tx c of
        None \<Rightarrow> (Inl NoTransactionError, c)
      | Some x \<Rightarrow>
          if t \<notin> fst ` set (tables x) then (Inl NoSuchTableError, c)
          else
            (let (r, c1) =
                   (case map_of (unflushed_data x) t of
                      Some r \<Rightarrow> (r, c)
                    | None \<Rightarrow>
                        (next_ref c,
                         c\<lparr>tx := Some (x\<lparr>unflushed_data := AList.update t (next_ref c) (unflushed_data x)\<rparr>),
                           heap := (heap c)(next_ref c := []),
                           next_ref := Suc (next_ref c)\<rparr>));
                 c2 = c1\<lparr>heap := (heap c1)(r := heap c1 r @ [row])\<rparr>
             in if length (heap c2 r) \<ge> sz then flush_rows t c2 else (Inr (), c2)))"

subsection \<open>commit_tx\<close>

fun flush_tables :: "string list \<Rightarrow> client \<Rightarrow> (error + unit) \<times> client" where
  "flush_tables [] c = (Inr (), c)"
| "flush_tables (t # ts) c =
     (case flush_rows t c of
        (Inl e, c') \<Rightarrow> (Inl e, c')
      | (Inr _, c') \<Rightarrow> flush_tables ts c')"

text \<open>\<^verbatim>\<open>any(self.tx.actions.values())\<close>: some table has a non-empty action list.\<close>

definition wrote :: "Transaction \<Rightarrow> bool" where
  "wrote x \<longleftrightarrow> list_ex (\<lambda>(t, acts). acts \<noteq> []) (actions x)"

text \<open>
  \<^verbatim>\<open>f"{n:020d}"\<close>: decimal digits, zero-padded to width 20, the sign (if any) counted in
  the width and written first.
\<close>

fun digits :: "nat \<Rightarrow> string" where
  "digits n = (if n < 10 then [''0123456789'' ! n] else digits (n div 10) @ [''0123456789'' ! (n mod 10)])"

declare digits.simps [simp del]

definition zfill :: "nat \<Rightarrow> string \<Rightarrow> string" where
  "zfill w s = replicate (w - length s) CHR ''0'' @ s"

definition format_020d :: "int \<Rightarrow> string" where
  "format_020d i = (if i < 0 then CHR ''-'' # zfill 19 (digits (nat (- i))) else zfill 20 (digits (nat i)))"

definition log_filename :: "int \<Rightarrow> string" where
  "log_filename i = ''_log_'' @ format_020d i"

definition tx_data :: "Transaction \<Rightarrow> json" where
  "tx_data x =
     JObj [(''Id'', JInt (tx_id x)),
           (''Actions'', JObj (map (\<lambda>(t, acts). (t, JArr (map Action_to_dict acts))) (actions x)))]"

definition commit_tx :: "client \<Rightarrow> (error + unit) \<times> client" where
  "commit_tx c =
     (case tx c of
        None \<Rightarrow> (Inl NoTransactionError, c)
      | Some x \<Rightarrow>
          (case flush_tables (map fst (tables x)) c of
             (Inl e, c1) \<Rightarrow> (Inl e, c1)
           | (Inr _, c1) \<Rightarrow>
               (case tx c1 of
                  None \<Rightarrow> (Inl AttributeError, c1)
                | Some x1 \<Rightarrow>
                    if \<not> wrote x1 then (Inr (), c1\<lparr>tx := None\<rparr>)
                    else
                      (let (res, s') = put_if_absent (log_filename (tx_id x1)) (tx_data x1) (os c1);
                           c2 = c1\<lparr>os := s'\<rparr>
                       in case res of
                            Inr _ \<Rightarrow> (Inr (), c2\<lparr>tx := None\<rparr>)
                          | Inl FileExistsError \<Rightarrow> (Inl ConcurrentCommitError, c2\<lparr>tx := None\<rparr>)
                          | Inl e \<Rightarrow> (Inl e, c2)))))"

subsection \<open>scan and the cursor\<close>

text \<open>
  The cursor keeps the address of the row buffer it was given (\<open>unflushed_rows\<close>), not
  a copy of the rows, and reaches the store through the client it is called with.
\<close>

record ScanIterator =
  si_table :: string
  unflushed_rows :: nat
  unflushed_row_pointer :: nat
  dataobjects :: "string list"
  dataobjects_pointer :: nat
  dataobject :: "DataObject option"
  dataobject_row_pointer :: nat

definition get_or_empty :: "(string \<times> 'a list) list \<Rightarrow> string \<Rightarrow> 'a list" where
  "get_or_empty d k = (case map_of d k of None \<Rightarrow> [] | Some v \<Rightarrow> v)"

definition scan :: "string \<Rightarrow> client \<Rightarrow> (error + ScanIterator) \<times> client" where
  "scan t c =
     (case tx c of
        None \<Rightarrow> (Inl NoTransactionError, c)
      | Some x \<Rightarrow>
          (let all_actions = get_or_empty (previous_actions x) t @ get_or_empty (actions x) t;
               names = List.map_filter (\<lambda>a. map_option ada_name (add_dataobject a)) all_actions;
               (r, c1) =
                 (case map_of (unflushed_data x) t of
                    Some r \<Rightarrow> (r, c)
                  | None \<Rightarrow> (next_ref c, c\<lparr>heap := (heap c)(next_ref c := []), next_ref := Suc (next_ref c)\<rparr>))
           in (Inr \<lparr>si_table = t, unflushed_rows = r, unflushed_row_pointer = 0,
                    dataobjects = names, dataobjects_pointer = 0, dataobject = None,
                    dataobject_row_pointer = 0\<rparr>, c1)))"

text \<open>The \<^verbatim>\<open>while\<close> loop of \<^verbatim>\<open>__next__\<close>: move to the next data object while the current one is used up.\<close>

definition load_dataobject :: "ObjectStorage \<Rightarrow> string \<Rightarrow> string \<Rightarrow> error + DataObject" where
  "load_dataobject s t n = and_then (read (table_filename t n) s) decode_dataobject"

function next_dataobject :: "ScanIterator \<Rightarrow> ObjectStorage \<Rightarrow> (error + unit) \<times> ScanIterator" where
  "next_dataobject it s =
     (if (case dataobject it of None \<Rightarrow> True | Some d \<Rightarrow> int (dataobject_row_pointer it) \<ge> do_length d) then
        (if dataobjects_pointer it \<ge> length (dataobjects it) then (Inl StopIteration, it)
         else
           (case load_dataobject s (si_table it) (dataobjects it ! dataobjects_pointer it) of
              Inl e \<Rightarrow> (Inl e, it)
            | Inr d \<Rightarrow>
                next_dataobject
                  (it\<lparr>dataobject := Some d,
                      dataobjects_pointer := Suc (dataobjects_pointer it),
                      dataobject_row_pointer := 0\<rparr>) s))
      else (Inr (), it))"
  by pat_completeness auto
termination
  by (relation "measure (\<lambda>(it, s). length (dataobjects it) - dataobjects_pointer it)") auto

declare next_dataobject.simps [simp del]

definition ScanIterator_next :: "ScanIterator \<Rightarrow> client \<Rightarrow> (error + json) \<times> ScanIterator" where
  "ScanIterator_next it c =
     (if unflushed_row_pointer it < length (heap c (unflushed_rows it)) then
        (Inr (heap c (unflushed_rows it) ! unflushed_row_pointer it),
         it\<lparr>unflushed_row_pointer := Suc (unflushed_row_pointer it)\<rparr>)
      else
        (case next_dataobject it (os c) of
           (Inl e, it') \<Rightarrow> (Inl e, it')
         | (Inr _, it') \<Rightarrow>
             (case dataobject it' of
                None \<Rightarrow> (Inl AttributeError, it')
              | Some d \<Rightarrow>
                  if dataobject_row_pointer it' < length (do_data d) then
                    (Inr (do_data d ! dataobject_row_pointer it'),
                     it'\<lparr>dataobject_row_pointer := Suc (dataobject_row_pointer it')\<rparr>)
                  else (Inl IndexError, it'))))"

text \<open>
  \<^verbatim>\<open>for row in iterator\<close>: call \<^verbatim>\<open>__next__\<close> until it raises \<open>StopIteration\<close>; any
  other exception ends the loop with that exception.  \<open>fuel\<close> bounds the number of rows
  taken; \<open>None\<close> is "more rows than fuel".
\<close>

fun rows_of :: "nat \<Rightarrow> ScanIterator \<Rightarrow> client \<Rightarrow> (error + json list) option" where
  "rows_of fuel it c =
     (case ScanIterator_next it c of
        (Inl StopIteration, it') \<Rightarrow> Some (Inr [])
      | (Inl e, it') \<Rightarrow> Some (Inl e)
      | (Inr row, it') \<Rightarrow>
          (case fuel of
             0 \<Rightarrow> None
           | Suc n \<Rightarrow>
               (case rows_of n it' c of
                  None \<Rightarrow> None
                | Some (Inl e) \<Rightarrow> Some (Inl e)
                | Some (Inr rows) \<Rightarrow> Some (Inr (row # rows)))))"

declare rows_of.simps [simp del]

section \<open>Several clients on one store\<close>

text \<open>
  Any number of clients share one object store.  A step is one client making one call;
  the call sees the store as it is and leaves it as the call left it, whether the call
  returned or raised.
\<close>

datatype call =
    NewTx
  | CreateTable string json
  | WriteRow string json
  | FlushRows string
  | Scan string
  | CommitTx

fun run_call :: "nat \<Rightarrow> call \<Rightarrow> client \<Rightarrow> client" where
  "run_call sz NewTx c = snd (new_tx c)"
| "run_call sz (CreateTable t cols) c = snd (create_table t cols c)"
| "run_call sz (WriteRow t row) c = snd (write_row sz t row c)"
| "run_call sz (FlushRows t) c = snd (flush_rows t c)"
| "run_call sz (Scan t) c = snd (scan t c)"
| "run_call sz CommitTx c = snd (commit_tx c)"

record system =
  store :: ObjectStorage
  clients :: "nat \<Rightarrow> client"

definition step :: "nat \<Rightarrow> nat \<Rightarrow> call \<Rightarrow> system \<Rightarrow> system" where
  "step sz i k s =
     (let c' = run_call sz k ((clients s i)\<lparr>os := store s\<rparr>)
      in \<lparr>store = os c', clients = (clients s)(i := c')\<rparr>)"

inductive reachable :: "nat \<Rightarrow> system \<Rightarrow> bool" for sz :: nat where
  start: "files (store s) = [] \<Longrightarrow> (\<forall>i. tx (clients s i) = None) \<Longrightarrow> reachable sz s"
| step: "reachable sz s \<Longrightarrow> reachable sz (step sz i k s)"

section \<open>Notions the properties are stated in\<close>

text \<open>The rows currently in \<open>unflushed_data[table]\<close> (none when the table has no buffer), and
  a caller writing a list of rows one by one, stopping at the first exception.\<close>

definition buffer :: "string \<Rightarrow> client \<Rightarrow> json list" where
  "buffer t c =
     (case tx c of
        None \<Rightarrow> []
      | Some x \<Rightarrow> (case map_of (unflushed_data x) t of None \<Rightarrow> [] | Some r \<Rightarrow> heap c r))"


text \<open>The document \<open>flush_rows\<close> writes for the buffer at address \<open>r\<close>.\<close>

definition flush_blob :: "string \<Rightarrow> nat \<Rightarrow> client \<Rightarrow> json" where
  "flush_blob t r c =
     DataObject_to_dict \<lparr>do_table = t, do_name = uuids c (drawn c), do_data = heap c r,
                         do_length = int (length (heap c r))\<rparr>"

text \<open>The id a log file shows to \<open>new_tx\<close> (none when the file cannot be read as a log
  entry), and the ids of all files the listing of the log prefix returns.\<close>

definition log_id :: "ObjectStorage \<Rightarrow> string \<Rightarrow> int option" where
  "log_id s f =
     (case and_then (and_then (read f s) (\<lambda>d. subscript d ''Id'')) as_int of
        Inl _ \<Rightarrow> None
      | Inr i \<Rightarrow> Some i)"

definition observed_ids :: "ObjectStorage \<Rightarrow> int list" where
  "observed_ids s = List.map_filter (log_id s) (list_prefix ''_log_'' s)"

text \<open>An action that is exactly one of the two variants, as every action the client builds is.\<close>

definition variant :: "Action \<Rightarrow> bool" where
  "variant a \<longleftrightarrow> (add_dataobject a = None) \<noteq> (change_metadata a = None)"

text \<open>The actions a log entry document holds, each with the table key it is filed under, as
  \<open>new_tx\<close> decodes them.\<close>

definition entry_actions :: "json \<Rightarrow> (string \<times> Action) list" where
  "entry_actions doc =
     (case and_then (subscript doc ''Actions'') as_dict of
        Inl _ \<Rightarrow> []
      | Inr items \<Rightarrow>
          concat (map (\<lambda>(t, acts).
            case as_list acts of
              Inl _ \<Rightarrow> []
            | Inr acts' \<Rightarrow>
                List.map_filter (\<lambda>a. case decode_action a of Inl _ \<Rightarrow> None | Inr act \<Rightarrow> Some (t, act)) acts')
            items))"

text \<open>The rows stored in the data object \<open>n\<close> of table \<open>t\<close>, and whether that blob is there
  and is a data object whose \<open>Len\<close> is the length of its \<open>Data\<close> (as \<open>flush_rows\<close> writes it).\<close>

definition stored_rows :: "ObjectStorage \<Rightarrow> string \<Rightarrow> string \<Rightarrow> json list" where
  "stored_rows s t n = (case load_dataobject s t n of Inl _ \<Rightarrow> [] | Inr d \<Rightarrow> do_data d)"

definition intact :: "ObjectStorage \<Rightarrow> string \<Rightarrow> string \<Rightarrow> bool" where
  "intact s t n = (case load_dataobject s t n of Inl _ \<Rightarrow> False | Inr d \<Rightarrow> do_length d = int (length (do_data d)))"

text \<open>The names of the data objects a scan of \<open>t\<close> visits: the \<open>AddDataobject\<close> entries of
  \<open>previous_actions[t] ++ actions[t]\<close>, in that order.\<close>

definition scan_names :: "Transaction \<Rightarrow> string \<Rightarrow> string list" where
  "scan_names x t =
     List.map_filter (\<lambda>a. map_option ada_name (add_dataobject a))
       (get_or_empty (previous_actions x) t @ get_or_empty (actions x) t)"

text \<open>Every buffer address a transaction holds has been handed out by the allocator (a fresh
  Python list is never one that already exists).\<close>

definition refs_ok :: "client \<Rightarrow> bool" where
  "refs_ok c = (case tx c of None \<Rightarrow> True | Some x \<Rightarrow> list_all (\<lambda>(t, r). r < next_ref c) (unflushed_data x))"

section \<open>Example runs\<close>

text \<open>A store without faults, a deterministic name source, and a client that has just opened
  a transaction on the empty store.\<close>

definition demo_uuids :: "nat \<Rightarrow> string" where
  "demo_uuids n = ''uuid'' @ digits n"

definition demo_fresh :: client where
  "demo_fresh = new_Client (new_FileObjectStorage (\<lambda>_. None)) demo_uuids"

definition demo_open :: client where
  "demo_open = snd (new_tx demo_fresh)"

text \<open>A writer on a fresh store under the fault schedule \<open>f\<close>: a transaction opened, table
  \<open>x\<close> created and one row written with the threshold set to 4 (so nothing is flushed yet).\<close>

definition demo_cols :: json where
  "demo_cols = JArr [JStr ''a'', JStr ''b'']"

definition demo_row :: "int \<Rightarrow> json" where
  "demo_row i = JArr [JStr ''Joey'', JInt i]"

definition fault_at :: "nat \<Rightarrow> nat \<Rightarrow> nat option" where
  "fault_at k n = (if n = k then Some 28 else None)"

definition demo_writer :: "(nat \<Rightarrow> nat option) \<Rightarrow> client" where
  "demo_writer f =
     snd (write_row 4 ''x'' (demo_row 1)
       (snd (create_table ''x'' demo_cols
         (snd (new_tx (new_Client (new_FileObjectStorage f) demo_uuids))))))"

definition demo_writer_tx :: Transaction where
  "demo_writer_tx =
     \<lparr>tx_id = 1, previous_actions = [],
      actions = [(''x'', [\<lparr>add_dataobject = None,
                           change_metadata = Some \<lparr>cma_table = ''x'', cma_columns = demo_cols\<rparr>\<rparr>])],
      tables = [(''x'', demo_cols)], unflushed_data = [(''x'', 0)]\<rparr>"

text \<open>The store after the writer's commit, a reader that opens its transaction on it (and then
  writes a row of its own), and a second writer that opened before that commit and so still
  holds id 1.\<close>

definition demo_create :: Action where
  "demo_create = \<lparr>add_dataobject = None, change_metadata = Some \<lparr>cma_table = ''x'', cma_columns = demo_cols\<rparr>\<rparr>"

definition demo_add :: Action where
  "demo_add = \<lparr>add_dataobject = Some \<lparr>ada_name = ''uuid0'', ada_table = ''x''\<rparr>, change_metadata = None\<rparr>"

definition demo_log_doc :: json where
  "demo_log_doc = JObj [(''Id'', JInt 1), (''Actions'', JObj [(''x'', JArr [Action_to_dict demo_create, Action_to_dict demo_add])])]"

definition demo_data_doc :: json where
  "demo_data_doc = DataObject_to_dict \<lparr>do_table = ''x'', do_name = ''uuid0'', do_data = [demo_row 1], do_length = 1\<rparr>"

definition demo_store :: ObjectStorage where
  "demo_store = \<lparr>files = [(''_table_x_uuid0'', demo_data_doc), (''_log_00000000000000000001'', demo_log_doc)],
      faults = (\<lambda>_. None), puts = 2\<rparr>"


definition demo_reader :: client where
  "demo_reader = snd (new_tx (new_Client demo_store demo_uuids))"

definition demo_reader_tx :: Transaction where
  "demo_reader_tx = \<lparr>tx_id = 2, previous_actions = [(''x'', [demo_create, demo_add])], actions = [],
      tables = [(''x'', demo_cols)], unflushed_data = []\<rparr>"

definition demo_rw :: client where
  "demo_rw = snd (write_row 4 ''x'' (demo_row 3) demo_reader)"

definition demo_late :: client where
  "demo_late = (snd (create_table ''y'' demo_cols demo_open))\<lparr>os := demo_store\<rparr>"

definition demo_late_tx :: Transaction where
  "demo_late_tx = \<lparr>tx_id = 1, previous_actions = [],
      actions = [(''y'', [\<lparr>add_dataobject = None, change_metadata = Some \<lparr>cma_table = ''y'', cma_columns = demo_cols\<rparr>\<rparr>])],
      tables = [(''y'', demo_cols)], unflushed_data = []\<rparr>"

text \<open>The same run as steps of a system of clients.\<close>

definition demo_system0 :: system where
  "demo_system0 =
     \<lparr>store = new_FileObjectStorage (\<lambda>_. None),
      clients = (\<lambda>_. new_Client (new_FileObjectStorage (\<lambda>_. None)) demo_uuids)\<rparr>"

definition demo_system :: system where
  "demo_system =
     step 4 0 CommitTx (step 4 0 (WriteRow ''x'' (demo_row 1))
       (step 4 0 (CreateTable ''x'' demo_cols) (step 4 0 NewTx demo_system0)))"

text \<open>A cursor opened on a table that has no buffer yet, and a row written afterwards.\<close>

definition demo_created :: client where
  "demo_created = snd (create_table ''x'' demo_cols demo_open)"

definition demo_cursor :: ScanIterator where
  "demo_cursor = \<lparr>si_table = ''x'', unflushed_rows = 0, unflushed_row_pointer = 0, dataobjects = [],
      dataobjects_pointer = 0, dataobject = None, dataobject_row_pointer = 0\<rparr>"

definition demo_scanned :: client where
  "demo_scanned = snd (scan ''x'' demo_created)"

definition demo_after_write :: client where
  "demo_after_write = snd (write_row 4 ''x'' (demo_row 1) demo_scanned)"




section \<open>Invariants and auxiliary notions for the proofs\<close>

text \<open>The client after a flush whose write succeeded and left the store as \<open>s'\<close>.\<close>

definition flushed :: "string \<Rightarrow> Transaction \<Rightarrow> client \<Rightarrow> ObjectStorage \<Rightarrow> client" where
  "flushed t x c s' =
     c\<lparr>drawn := Suc (drawn c), os := s',
       tx := Some (x\<lparr>actions := setdefault_append t
                        \<lparr>add_dataobject = Some \<lparr>ada_name = uuids c (drawn c), ada_table = t\<rparr>,
                         change_metadata = None\<rparr> (actions x),
                      unflushed_data := AList.update t (next_ref c) (unflushed_data x)\<rparr>),
       heap := (heap c)(next_ref c := []),
       next_ref := Suc (next_ref c)\<rparr>"

text \<open>What a cursor has still to yield: the rest of its row buffer, the rest of the data
  object it is in, and the data objects it has not opened yet; and a cursor whose data
  objects (the open one and those to come) are intact.\<close>

definition pending_objects :: "ScanIterator \<Rightarrow> ObjectStorage \<Rightarrow> json list" where
  "pending_objects it s =
     (case dataobject it of None \<Rightarrow> [] | Some d \<Rightarrow> drop (dataobject_row_pointer it) (do_data d))
     @ concat (map (stored_rows s (si_table it)) (drop (dataobjects_pointer it) (dataobjects it)))"

definition pending :: "ScanIterator \<Rightarrow> client \<Rightarrow> json list" where
  "pending it c = drop (unflushed_row_pointer it) (heap c (unflushed_rows it)) @ pending_objects it (os c)"

definition cursor_ok :: "ScanIterator \<Rightarrow> ObjectStorage \<Rightarrow> bool" where
  "cursor_ok it s \<longleftrightarrow>
     (case dataobject it of None \<Rightarrow> True | Some d \<Rightarrow> do_length d = int (length (do_data d))) \<and>
     (\<forall>n \<in> set (drop (dataobjects_pointer it) (dataobjects it)). intact s (si_table it) n)"

text \<open>An action filed under table \<open>t\<close> is good in a store when, if it adds a data object,
  it names table \<open>t\<close> and that data object's blob is in the store as \<open>flush_rows\<close> writes it.\<close>

definition good_action :: "ObjectStorage \<Rightarrow> string \<Rightarrow> Action \<Rightarrow> bool" where
  "good_action s t a =
     (case add_dataobject a of
        None \<Rightarrow> True
      | Some d \<Rightarrow> ada_table d = t \<and> intact s t (ada_name d))"

definition good_actions :: "ObjectStorage \<Rightarrow> (string \<times> Action list) list \<Rightarrow> bool" where
  "good_actions s d = list_all (\<lambda>(t, acts). list_all (good_action s t) acts) d"

text \<open>The local actions of a transaction form a dict (each key once) of variants.\<close>

definition actions_wf :: "Transaction \<Rightarrow> bool" where
  "actions_wf x \<longleftrightarrow>
     distinct (map fst (actions x)) \<and> list_all (\<lambda>(t, acts). list_all variant acts) (actions x)"

text \<open>A well-formed client: allocated buffers, good snapshot and local actions.\<close>

definition client_inv :: "ObjectStorage \<Rightarrow> client \<Rightarrow> bool" where
  "client_inv s c \<longleftrightarrow>
     refs_ok c \<and>
     (case tx c of
        None \<Rightarrow> True
      | Some x \<Rightarrow> good_actions s (previous_actions x) \<and> good_actions s (actions x) \<and> actions_wf x)"

text \<open>A file under the log prefix is a document that \<open>new_tx\<close> can replay, whatever the
  snapshot built so far; a well-formed store holds only good actions and such logs.\<close>

definition log_ok :: "string \<Rightarrow> json \<Rightarrow> bool" where
  "log_ok f doc \<longleftrightarrow> (startswith f ''_log_'' \<longrightarrow> (\<forall>acc. \<exists>acc'. replay_entry doc acc = Inr acc'))"

definition store_inv :: "ObjectStorage \<Rightarrow> bool" where
  "store_inv s \<longleftrightarrow>
     list_all (\<lambda>(f, doc). list_all (\<lambda>(t, a). good_action s t a) (entry_actions doc)) (files s) \<and>
     (\<forall>(f, doc) \<in> set (files s). log_ok f doc)"

definition system_inv :: "system \<Rightarrow> bool" where
  "system_inv S \<longleftrightarrow> store_inv (store S) \<and> (\<forall>i. client_inv (store S) (clients S i))"

text \<open>A store that has only gained blobs; a call that took the client from \<open>c\<close> to
  \<open>c'\<close> and kept the invariants.\<close>

definition extends :: "ObjectStorage \<Rightarrow> ObjectStorage \<Rightarrow> bool" where
  "extends s s' \<longleftrightarrow> (\<exists>more. files s' = files s @ more)"

definition kept :: "client \<Rightarrow> client \<Rightarrow> bool" where
  "kept c c' \<longleftrightarrow> extends (os c) (os c') \<and> store_inv (os c') \<and> client_inv (os c') c'"

section \<open>Properties\<close>

subsection \<open>Evaluating the example runs\<close>

lemma demo_open_eq: "demo_open = demo_fresh\<lparr>tx := Some (new_Transaction 1)\<rparr>"
  by (simp add: demo_open_def demo_fresh_def new_Client_def new_FileObjectStorage_def
        new_tx_def list_prefix_def new_Transaction_def)

lemma demo_uuids_0: "demo_uuids 0 = ''uuid0''"
  by (simp add: demo_uuids_def digits.simps)

lemma format_020d_1: "format_020d 1 = ''00000000000000000001''"
  by (simp add: format_020d_def zfill_def digits.simps numeral_eq_Suc)

lemma demo_writer_eq:
  "demo_writer f =
     \<lparr>os = \<lparr>files = [], faults = f, puts = 0\<rparr>, tx = Some demo_writer_tx,
      heap = (\<lambda>_. [])(0 := [demo_row 1]), next_ref = 1, uuids = demo_uuids, drawn = 0\<rparr>"
  by (simp add: demo_writer_def demo_writer_tx_def new_tx_def create_table_def write_row_def
        list_prefix_def new_Transaction_def new_Client_def new_FileObjectStorage_def
        setdefault_append_def Let_def)

subsection \<open>scan\<close>

lemma next_dataobject_exhausted:
  "dataobject it = None \<Longrightarrow> dataobjects it = [] \<Longrightarrow> next_dataobject it s = (Inl StopIteration, it)"
  by (simp add: next_dataobject.simps)

text \<open>With a transaction open, \<open>scan\<close> always returns a cursor; it allocates a list of its
  own exactly when the transaction has no buffer for the table.\<close>

lemma scan_open:
  assumes "tx c = Some x"
  shows "scan t c =
     (Inr \<lparr>si_table = t,
           unflushed_rows = (case map_of (unflushed_data x) t of Some r \<Rightarrow> r | None \<Rightarrow> next_ref c),
           unflushed_row_pointer = 0,
           dataobjects = List.map_filter (\<lambda>a. map_option ada_name (add_dataobject a))
                           (get_or_empty (previous_actions x) t @ get_or_empty (actions x) t),
           dataobjects_pointer = 0, dataobject = None, dataobject_row_pointer = 0\<rparr>,
      case map_of (unflushed_data x) t of Some r \<Rightarrow> c
      | None \<Rightarrow> c\<lparr>heap := (heap c)(next_ref c := []), next_ref := Suc (next_ref c)\<rparr>)"
  using assms by (simp add: scan_def Let_def split: option.splits)

text \<open>
  C4 (as stated: \<open>scan\<close> on a table that is not in \<open>tables\<close> fails with \<open>NoSuchTable\<close>).
  The code does not: \<open>scan\<close> never looks at \<open>tables\<close>.  On the transaction just opened
  on the empty store, where no table is known, \<open>scan\<close> of \<open>y\<close> does not raise
  \<open>NoSuchTableError\<close>.
\<close>

theorem scan_unknown_table_counterexample:
  "tx demo_open = Some (new_Transaction 1) \<and> ''y'' \<notin> fst ` set (tables (new_Transaction 1))
   \<and> fst (scan ''y'' demo_open) \<noteq> Inl NoSuchTableError"
  by (simp add: demo_open_eq demo_fresh_def new_Client_def scan_def new_Transaction_def
        get_or_empty_def List.map_filter_simps)

text \<open>
  C4 (amended): for every open transaction, \<open>scan\<close> on a table that is not in \<open>tables\<close>
  does not fail; it returns a cursor and leaves the transaction and the store as they
  were.  When the transaction records nothing under that name (no snapshot actions, no
  local actions, no buffer) the cursor yields the empty sequence.
\<close>

theorem scan_unknown_table:
  assumes "tx c = Some x" and "t \<notin> fst ` set (tables x)"
  shows "\<exists>it c'. scan t c = (Inr it, c') \<and> tx c' = tx c \<and> os c' = os c \<and>
           (map_of (previous_actions x) t = None \<longrightarrow> map_of (actions x) t = None \<longrightarrow>
            map_of (unflushed_data x) t = None \<longrightarrow> rows_of fuel it c' = Some (Inr []))"
proof -
  obtain it c' where sc: "scan t c = (Inr it, c')"
    using scan_open [OF assms(1)] by blast
  have frame: "tx c' = tx c \<and> os c' = os c"
    using sc scan_open [OF assms(1), of t] by (auto split: option.splits)
  have "rows_of fuel it c' = Some (Inr [])"
    if "map_of (previous_actions x) t = None" "map_of (actions x) t = None"
       "map_of (unflushed_data x) t = None"
  proof -
    from sc scan_open [OF assms(1), of t] that
    have it: "dataobjects it = []" "dataobject it = None" "unflushed_row_pointer it = 0"
         "heap c' (unflushed_rows it) = []"
      by (auto simp: get_or_empty_def List.map_filter_simps)
    then have "ScanIterator_next it c' = (Inl StopIteration, it)"
      by (simp add: ScanIterator_next_def next_dataobject_exhausted)
    then show ?thesis
      by (simp add: rows_of.simps)
  qed
  with sc frame show ?thesis
    by (intro exI [of _ it] exI [of _ c']) simp
qed

theorem scan_unknown_table_witness:
  "tx demo_open = Some (new_Transaction 1) \<and> ''y'' \<notin> fst ` set (tables (new_Transaction 1)) \<and>
   (\<exists>it c'. scan ''y'' demo_open = (Inr it, c') \<and> tx c' = tx demo_open \<and> os c' = os demo_open \<and>
      rows_of 0 it c' = Some (Inr []))"
proof -
  have a: "tx demo_open = Some (new_Transaction 1)"
    by (simp add: demo_open_eq)
  have b: "''y'' \<notin> fst ` set (tables (new_Transaction 1))"
    by (simp add: new_Transaction_def)
  from scan_unknown_table [OF a b, of 0] a b show ?thesis
    by (auto simp: new_Transaction_def)
qed

subsection \<open>Dicts of action lists\<close>

lemma in_set_update_same: "(k, v) \<in> set (AList.update k v d)"
  by (induction d) auto

lemma in_set_update_other: "(k', v') \<in> set d \<Longrightarrow> k' \<noteq> k \<Longrightarrow> (k', v') \<in> set (AList.update k v d)"
  by (induction d) auto

lemma setdefault_append_nonempty:
  "\<exists>acts. acts \<noteq> [] \<and> (t, acts) \<in> set (setdefault_append t a d)"
proof (cases "map_of d t")
  case None
  then have "(t, [a]) \<in> set (setdefault_append t a d)"
    by (simp add: setdefault_append_def in_set_update_same)
  then show ?thesis by blast
next
  case (Some xs)
  then have "(t, xs @ [a]) \<in> set (setdefault_append t a d)"
    by (simp add: setdefault_append_def in_set_update_same)
  then show ?thesis by blast
qed

lemma wrote_iff: "wrote x \<longleftrightarrow> (\<exists>k acts. (k, acts) \<in> set (actions x) \<and> acts \<noteq> [])"
  by (auto simp: wrote_def list_ex_iff)

lemma wrote_setdefault_append: "actions x' = setdefault_append t a d \<Longrightarrow> wrote x'"
  using setdefault_append_nonempty [of t a d] by (auto simp: wrote_iff)

subsection \<open>flush_rows\<close>

lemma put_if_absent_files:
  assumes "put_if_absent f b s = (res, s')"
  shows "(case res of Inl e \<Rightarrow> files s' = files s
          | Inr _ \<Rightarrow> files s' = files s @ [(f, b)] \<and> f \<notin> fst ` set (files s))"
  using assms by (auto simp: put_if_absent_def Let_def split: option.splits if_splits)

text \<open>An empty or missing buffer: nothing happens.\<close>

lemma flush_rows_idle:
  assumes "tx c = Some x"
    and "map_of (unflushed_data x) t = None \<or> (\<exists>r. map_of (unflushed_data x) t = Some r \<and> heap c r = [])"
  shows "flush_rows t c = (Inr (), c)"
  using assms by (auto simp: flush_rows_def)

text \<open>A non-empty buffer: the outcome is decided by the one call of \<open>put_if_absent\<close>.\<close>

lemma flush_rows_busy:
  assumes "tx c = Some x" and "map_of (unflushed_data x) t = Some r" and "heap c r \<noteq> []"
    and "put_if_absent (table_filename t (uuids c (drawn c))) (flush_blob t r c) (os c) = (res, s')"
  shows "flush_rows t c =
     (case res of
        Inl e \<Rightarrow> (Inl e, c\<lparr>drawn := Suc (drawn c), os := s'\<rparr>)
      | Inr _ \<Rightarrow> (Inr (), flushed t x c s'))"
  using assms
  by (simp add: flush_rows_def uuidv4_def Let_def flush_blob_def flushed_def split: sum.splits)

text \<open>
  C10: with a transaction open and a non-empty buffer for the table, if \<open>put_if_absent\<close>
  fails inside \<open>flush_rows\<close>, for whatever reason \<open>e\<close> (a name collision included), the
  call raises \<open>e\<close> and the client is as before but for the name drawn and the store's
  call count: the transaction is the same and still open (no action appended, the buffer
  still bound to the table), the buffered rows are still on the heap, and the store holds
  the same blobs.
\<close>

theorem flush_rows_put_failure:
  assumes "tx c = Some x" and "map_of (unflushed_data x) t = Some r" and "heap c r \<noteq> []"
    and "put_if_absent (table_filename t (uuids c (drawn c))) (flush_blob t r c) (os c) = (Inl e, s')"
  shows "\<exists>c'. flush_rows t c = (Inl e, c') \<and> tx c' = Some x \<and> heap c' = heap c \<and>
           files (os c') = files (os c) \<and> c' = c\<lparr>drawn := Suc (drawn c), os := s'\<rparr>"
  using flush_rows_busy [OF assms] put_if_absent_files [OF assms(4)] assms(1) by simp

theorem flush_rows_put_failure_witness:
  "tx (demo_writer (fault_at 0)) = Some demo_writer_tx \<and>
   map_of (unflushed_data demo_writer_tx) ''x'' = Some 0 \<and>
   heap (demo_writer (fault_at 0)) 0 \<noteq> [] \<and>
   fst (flush_rows ''x'' (demo_writer (fault_at 0))) = Inl (OSError 28) \<and>
   tx (snd (flush_rows ''x'' (demo_writer (fault_at 0)))) = Some demo_writer_tx \<and>
   heap (snd (flush_rows ''x'' (demo_writer (fault_at 0)))) 0 = [demo_row 1]"
proof -
  let ?c = "demo_writer (fault_at 0)"
  have a: "tx ?c = Some demo_writer_tx"
    by (simp add: demo_writer_eq)
  have b: "map_of (unflushed_data demo_writer_tx) ''x'' = Some 0"
    by (simp add: demo_writer_tx_def)
  have c: "heap ?c 0 \<noteq> []"
    by (simp add: demo_writer_eq)
  have d: "put_if_absent (table_filename ''x'' (uuids ?c (drawn ?c))) (flush_blob ''x'' 0 ?c) (os ?c)
             = (Inl (OSError 28), (os ?c)\<lparr>puts := 1\<rparr>)"
    by (simp add: put_if_absent_def demo_writer_eq fault_at_def)
  from flush_rows_put_failure [OF a b c d] a b c show ?thesis
    by (auto simp: demo_writer_eq)
qed

lemma flush_rows_cases:
  assumes "tx c = Some x" and "flush_rows t c = (res, c')"
  shows "(res = Inr () \<and> c' = c)
       \<or> (\<exists>e. res = Inl e \<and> tx c' = Some x \<and> heap c' = heap c \<and> files (os c') = files (os c))
       \<or> (res = Inr () \<and> (\<exists>x'. tx c' = Some x' \<and> wrote x' \<and> tables x' = tables x))"
proof (cases "map_of (unflushed_data x) t = None \<or> (\<exists>r. map_of (unflushed_data x) t = Some r \<and> heap c r = [])")
  case True
  from flush_rows_idle [OF assms(1) True] assms(2) show ?thesis by simp
next
  case False
  then obtain r where r: "map_of (unflushed_data x) t = Some r" "heap c r \<noteq> []" by auto
  obtain pr s' where p: "put_if_absent (table_filename t (uuids c (drawn c))) (flush_blob t r c) (os c) = (pr, s')"
    by (cases "put_if_absent (table_filename t (uuids c (drawn c))) (flush_blob t r c) (os c)")
  show ?thesis
  proof (cases pr)
    case (Inl e)
    with flush_rows_busy [OF assms(1) r p] assms put_if_absent_files [OF p]
    show ?thesis by auto
  next
    case (Inr u)
    with flush_rows_busy [OF assms(1) r p] assms(2)
    have "res = Inr ()" "c' = flushed t x c s'" by auto
    moreover have "wrote (the (tx (flushed t x c s')))"
      by (rule wrote_setdefault_append [of _ t _ "actions x"]) (simp add: flushed_def)
    ultimately show ?thesis
      by (simp add: flushed_def)
  qed
qed

lemma setdefault_append_keeps:
  assumes "(k, acts) \<in> set d" and "acts \<noteq> []"
  shows "\<exists>acts'. acts' \<noteq> [] \<and> (k, acts') \<in> set (setdefault_append t a d)"
proof (cases "k = t")
  case True
  then show ?thesis using setdefault_append_nonempty by blast
next
  case False
  with assms show ?thesis
    by (auto simp: setdefault_append_def in_set_update_other split: option.splits)
qed

text \<open>Once some action is recorded, flushing never loses it, and the transaction stays open.\<close>

lemma flush_rows_wrote:
  assumes "tx c = Some x" and "wrote x" and "flush_rows t c = (res, c')"
  shows "\<exists>x'. tx c' = Some x' \<and> wrote x'"
  using flush_rows_cases [OF assms(1,3)] assms(1,2) by auto

lemma flush_tables_wrote:
  "tx c = Some x \<Longrightarrow> wrote x \<Longrightarrow> flush_tables ts c = (res, c') \<Longrightarrow> \<exists>x'. tx c' = Some x' \<and> wrote x'"
proof (induction ts arbitrary: c x)
  case Nil
  then show ?case by simp
next
  case (Cons t ts)
  obtain r1 c1 where f: "flush_rows t c = (r1, c1)" by (cases "flush_rows t c")
  from flush_rows_wrote [OF Cons.prems(1,2) f] obtain x1 where x1: "tx c1 = Some x1" "wrote x1"
    by blast
  show ?case
  proof (cases r1)
    case (Inl e)
    with Cons.prems(3) f x1 show ?thesis by auto
  next
    case (Inr u)
    with Cons.prems(3) f have "flush_tables ts c1 = (res, c')" by simp
    from Cons.IH [OF x1 this] show ?thesis .
  qed
qed

text \<open>A commit-time flush that succeeds either did nothing at all or recorded an action.\<close>

lemma flush_tables_idle:
  "tx c = Some x \<Longrightarrow> flush_tables ts c = (Inr (), c') \<Longrightarrow>
     c' = c \<or> (\<exists>x'. tx c' = Some x' \<and> wrote x')"
proof (induction ts arbitrary: c x)
  case Nil
  then show ?case by simp
next
  case (Cons t ts)
  obtain r1 c1 where f: "flush_rows t c = (r1, c1)" by (cases "flush_rows t c")
  with Cons.prems(2) have r1: "r1 = Inr ()" and rest: "flush_tables ts c1 = (Inr (), c')"
    by (auto split: sum.splits)
  from flush_rows_cases [OF Cons.prems(1) f] r1
  consider "c1 = c" | x1 where "tx c1 = Some x1" "wrote x1"
    by auto
  then show ?case
  proof cases
    case 1
    with Cons.IH [OF Cons.prems(1)] rest show ?thesis by simp
  next
    case 2
    from flush_tables_wrote [OF 2 rest] show ?thesis by simp
  qed
qed

subsection \<open>commit_tx\<close>

text \<open>
  C5: for every open transaction whose local actions are empty across all tables after
  the commit-time flush, \<open>commit_tx\<close> returns normally, clears the client's transaction
  and writes no blob: the flush did nothing (\<open>c1 = c\<close>) and the client after the commit
  is the client before it with the transaction cleared, so its store is the same.
\<close>

theorem commit_tx_read_only:
  assumes "tx c = Some x"
    and "flush_tables (map fst (tables x)) c = (Inr (), c1)"
    and "tx c1 = Some x1" and "\<not> wrote x1"
  shows "commit_tx c = (Inr (), c\<lparr>tx := None\<rparr>) \<and> c1 = c \<and>
         tx (snd (commit_tx c)) = None \<and> os (snd (commit_tx c)) = os c"
proof -
  from flush_tables_idle [OF assms(1,2)] assms(3,4) have "c1 = c" by auto
  with assms show ?thesis by (simp add: commit_tx_def)
qed

text \<open>
  C1: for every client with an open transaction that has something to commit, if the
  write of the log entry fails with \<open>FileExistsError\<close> (the store's AlreadyExists), the
  transaction is cleared and the call raises \<open>ConcurrentCommitError\<close>; if it fails with
  any other error \<open>e\<close>, the call raises that same \<open>e\<close> and the transaction (as the
  commit-time flush left it) is still open.
\<close>

theorem commit_tx_log_write_failure:
  assumes "tx c = Some x"
    and "flush_tables (map fst (tables x)) c = (Inr (), c1)"
    and "tx c1 = Some x1" and "wrote x1"
    and "put_if_absent (log_filename (tx_id x1)) (tx_data x1) (os c1) = (Inl e, s')"
  shows "(e = FileExistsError \<longrightarrow>
            commit_tx c = (Inl ConcurrentCommitError, c1\<lparr>os := s', tx := None\<rparr>) \<and>
            tx (snd (commit_tx c)) = None)
       \<and> (e \<noteq> FileExistsError \<longrightarrow>
            commit_tx c = (Inl e, c1\<lparr>os := s'\<rparr>) \<and> tx (snd (commit_tx c)) = Some x1)"
  using assms by (cases e) (simp_all add: commit_tx_def)

subsection \<open>Example runs of commit_tx\<close>

lemma demo_commit:
  "commit_tx (demo_writer (\<lambda>_. None)) =
     (Inr (), \<lparr>os = demo_store, tx = None, heap = (\<lambda>_. [])(0 := [demo_row 1], 1 := []), next_ref = 2,
        uuids = demo_uuids, drawn = 1\<rparr>)"
  by (simp add: demo_writer_eq demo_writer_tx_def commit_tx_def flush_rows_def put_if_absent_def
     uuidv4_def Let_def table_filename_def demo_uuids_0 wrote_def setdefault_append_def log_filename_def
     format_020d_1 tx_data_def demo_store_def demo_log_doc_def demo_data_doc_def demo_create_def demo_add_def)

lemma decode_demo_create: "decode_action (Action_to_dict demo_create) = Inr demo_create"
  by (simp add: decode_action_def Action_to_dict_def demo_create_def ChangeMetadataAction_to_dict_def
      and_then_def as_dict_def subscript_def as_str_def)

lemma decode_demo_add: "decode_action (Action_to_dict demo_add) = Inr demo_add"
  by (simp add: decode_action_def Action_to_dict_def demo_add_def DataobjectAction_to_dict_def
      and_then_def as_dict_def subscript_def as_str_def)

lemma demo_action_fields:
  "add_dataobject demo_create = None"
  "change_metadata demo_create = Some \<lparr>cma_table = ''x'', cma_columns = demo_cols\<rparr>"
  "add_dataobject demo_add = Some \<lparr>ada_name = ''uuid0'', ada_table = ''x''\<rparr>"
  by (simp_all add: demo_create_def demo_add_def)

lemma demo_reader_eq:
  "demo_reader = \<lparr>os = demo_store, tx = Some demo_reader_tx, heap = (\<lambda>_. []), next_ref = 0, uuids = demo_uuids, drawn = 0\<rparr>"
  by (simp add: demo_reader_def new_tx_def new_Client_def list_prefix_def demo_store_def startswith_def
      read_def and_then_def replay_entry_def demo_log_doc_def subscript_def as_int_def as_dict_def as_list_def
      decode_demo_create decode_demo_add demo_action_fields demo_reader_tx_def new_Transaction_def
      setdefault_append_def)

theorem commit_tx_read_only_witness:
  "tx demo_reader = Some demo_reader_tx \<and>
   flush_tables (map fst (tables demo_reader_tx)) demo_reader = (Inr (), demo_reader) \<and>
   \<not> wrote demo_reader_tx \<and>
   commit_tx demo_reader = (Inr (), demo_reader\<lparr>tx := None\<rparr>) \<and>
   os (snd (commit_tx demo_reader)) = demo_store"
proof -
  have a: "tx demo_reader = Some demo_reader_tx"
    by (simp add: demo_reader_eq)
  have b: "flush_tables (map fst (tables demo_reader_tx)) demo_reader = (Inr (), demo_reader)"
    by (simp add: demo_reader_eq demo_reader_tx_def flush_rows_def)
  have c: "\<not> wrote demo_reader_tx"
    by (simp add: wrote_def demo_reader_tx_def)
  from commit_tx_read_only [OF a b a c] a b c show ?thesis
    by (simp add: demo_reader_eq)
qed

lemma demo_late_eq:
  "demo_late = \<lparr>os = demo_store, tx = Some demo_late_tx, heap = (\<lambda>_. []), next_ref = 0, uuids = demo_uuids, drawn = 0\<rparr>"
  by (simp add: demo_late_def demo_open_eq demo_fresh_def new_Client_def create_table_def new_Transaction_def
      setdefault_append_def demo_late_tx_def)

theorem commit_tx_log_write_failure_witness:
  "tx demo_late = Some demo_late_tx \<and> wrote demo_late_tx \<and>
   fst (put_if_absent (log_filename (tx_id demo_late_tx)) (tx_data demo_late_tx) (os demo_late)) = Inl FileExistsError \<and>
   fst (commit_tx demo_late) = Inl ConcurrentCommitError \<and> tx (snd (commit_tx demo_late)) = None \<and>
   fst (commit_tx (demo_writer (fault_at 1))) = Inl (OSError 28) \<and>
   tx (snd (commit_tx (demo_writer (fault_at 1)))) \<noteq> None"
proof -
  have a: "tx demo_late = Some demo_late_tx"
    by (simp add: demo_late_eq)
  have b: "flush_tables (map fst (tables demo_late_tx)) demo_late = (Inr (), demo_late)"
    by (simp add: demo_late_eq demo_late_tx_def flush_rows_def)
  have c: "wrote demo_late_tx"
    by (simp add: wrote_def demo_late_tx_def)
  have d: "put_if_absent (log_filename (tx_id demo_late_tx)) (tx_data demo_late_tx) (os demo_late)
             = (Inl FileExistsError, demo_store\<lparr>puts := 3\<rparr>)"
    by (simp add: put_if_absent_def demo_late_eq demo_late_tx_def log_filename_def format_020d_1 demo_store_def)
  note first = commit_tx_log_write_failure [OF a b a c d]
  let ?w = "demo_writer (fault_at 1)"
  let ?c1 = "flushed ''x'' demo_writer_tx ?w ((os ?w)\<lparr>puts := 1, files := [(''_table_x_uuid0'', demo_data_doc)]\<rparr>)"
  let ?x1 = "the (tx ?c1)"
  have a': "tx ?w = Some demo_writer_tx"
    by (simp add: demo_writer_eq)
  have b': "flush_tables (map fst (tables demo_writer_tx)) ?w = (Inr (), ?c1)"
    by (simp add: demo_writer_eq demo_writer_tx_def flush_rows_def flushed_def uuidv4_def put_if_absent_def
        fault_at_def table_filename_def demo_uuids_0 demo_data_doc_def)
  have c': "tx ?c1 = Some ?x1"
    by (simp add: flushed_def)
  have d': "wrote ?x1"
    by (simp add: flushed_def wrote_def demo_writer_tx_def setdefault_append_def)
  have e': "put_if_absent (log_filename (tx_id ?x1)) (tx_data ?x1) (os ?c1)
             = (Inl (OSError 28), (os ?c1)\<lparr>puts := 2\<rparr>)"
    by (simp add: put_if_absent_def flushed_def demo_writer_eq fault_at_def)
  note second = commit_tx_log_write_failure [OF a' b' c' d' e']
  from first second a c d show ?thesis
    by (simp add: flushed_def)
qed

subsection \<open>new_tx\<close>

lemma and_then_Inr: "and_then m f = Inr y \<longleftrightarrow> (\<exists>x. m = Inr x \<and> f x = Inr y)"
  by (cases m) (simp_all add: and_then_def)

lemma replay_entry_id:
  assumes "replay_entry d (m, x) = Inr (m', x')"
  shows "\<exists>i. and_then (subscript d ''Id'') as_int = Inr i \<and> m' = max m i"
  using assms by (auto simp: replay_entry_def and_then_Inr)

lemma replay_log_max:
  "replay_log fs s (m, x) = Inr (m', x') \<Longrightarrow> m' = Max (insert m (set (List.map_filter (log_id s) fs)))"
proof (induction fs arbitrary: m x)
  case Nil
  then show ?case by (simp add: List.map_filter_simps)
next
  case (Cons f fs)
  from Cons.prems obtain d m1 x1 where d: "read f s = Inr d"
    and e: "replay_entry d (m, x) = Inr (m1, x1)"
    and r: "replay_log fs s (m1, x1) = Inr (m', x')"
    by (auto simp: and_then_Inr)
  from replay_entry_id [OF e] obtain i where i: "and_then (subscript d ''Id'') as_int = Inr i" "m1 = max m i"
    by blast
  with d have lid: "log_id s f = Some i"
    by (simp add: log_id_def and_then_def)
  have "m' = Max (insert (max m i) (set (List.map_filter (log_id s) fs)))"
    using Cons.IH [OF r] i by simp
  also have "\<dots> = Max (insert m (insert i (set (List.map_filter (log_id s) fs))))"
  proof (cases "set (List.map_filter (log_id s) fs) = {}")
    case True
    then show ?thesis by simp
  next
    case False
    then show ?thesis by (simp add: max.assoc)
  qed
  finally show ?case using lid by (simp add: List.map_filter_simps insert_commute)
qed

lemma set_map_filter_sort: "set (List.map_filter g (sort xs)) = set (List.map_filter g xs)"
  by (simp add: List.map_filter_def)

text \<open>
  C6: for every store, \<open>new_tx\<close> on a client without a transaction gives the new
  transaction the id \<open>max + 1\<close>, where \<open>max\<close> is the largest id observed among the log
  entries (the running maximum starts at 0, so this is the largest log id whenever the
  log is not empty and its ids are unsigned); when the log is empty \<open>new_tx\<close> succeeds
  and the id is 1.
\<close>

theorem new_tx_id:
  assumes "tx c = None"
  shows "(list_prefix ''_log_'' (os c) = [] \<longrightarrow> new_tx c = (Inr (), c\<lparr>tx := Some (new_Transaction 1)\<rparr>))
       \<and> (\<forall>c'. new_tx c = (Inr (), c') \<longrightarrow>
            (\<exists>x. tx c' = Some x
               \<and> tx_id x = Max (insert 0 (set (observed_ids (os c)))) + 1
               \<and> (observed_ids (os c) \<noteq> [] \<longrightarrow> (\<forall>i \<in> set (observed_ids (os c)). 0 \<le> i) \<longrightarrow>
                    tx_id x = Max (set (observed_ids (os c))) + 1)))"
proof (intro conjI impI allI)
  assume "list_prefix ''_log_'' (os c) = []"
  with assms show "new_tx c = (Inr (), c\<lparr>tx := Some (new_Transaction 1)\<rparr>)"
    by (simp add: new_tx_def new_Transaction_def)
next
  fix c'
  assume ok: "new_tx c = (Inr (), c')"
  let ?ids = "observed_ids (os c)"
  from ok assms obtain m x where
    r: "replay_log (sort (list_prefix ''_log_'' (os c))) (os c) (0, new_Transaction 0) = Inr (m, x)"
    and c': "c' = c\<lparr>tx := Some (x\<lparr>tx_id := m + 1\<rparr>)\<rparr>"
    by (auto simp: new_tx_def split: sum.splits)
  from replay_log_max [OF r] have m: "m = Max (insert 0 (set ?ids))"
    by (simp add: observed_ids_def set_map_filter_sort)
  have "Max (insert 0 (set ?ids)) = Max (set ?ids)" if "?ids \<noteq> []" "\<forall>i \<in> set ?ids. 0 \<le> i"
  proof -
    from that have "0 \<le> Max (set ?ids)"
      by (metis List.finite_set Max_in set_empty)
    with that(1) show ?thesis by (simp add: max_def)
  qed
  with m c' show "\<exists>x. tx c' = Some x
               \<and> tx_id x = Max (insert 0 (set ?ids)) + 1
               \<and> (?ids \<noteq> [] \<longrightarrow> (\<forall>i \<in> set ?ids. 0 \<le> i) \<longrightarrow> tx_id x = Max (set ?ids) + 1)"
    by simp
qed

theorem new_tx_id_witness:
  "tx (new_Client demo_store demo_uuids) = None \<and>
   observed_ids demo_store = [1] \<and>
   new_tx (new_Client demo_store demo_uuids) = (Inr (), demo_reader) \<and>
   tx_id (the (tx demo_reader)) = 2 \<and>
   new_tx demo_fresh = (Inr (), demo_fresh\<lparr>tx := Some (new_Transaction 1)\<rparr>)"
proof -
  let ?c = "new_Client demo_store demo_uuids"
  have a: "tx ?c = None" by (simp add: new_Client_def)
  have b: "observed_ids demo_store = [1]"
    by (simp add: observed_ids_def list_prefix_def demo_store_def startswith_def List.map_filter_simps
        log_id_def read_def and_then_def demo_log_doc_def subscript_def as_int_def)
  have c: "new_tx ?c = (Inr (), demo_reader)"
    using demo_reader_eq
    by (simp add: demo_reader_def new_tx_def new_Client_def split: sum.splits prod.splits)
  have d: "tx demo_fresh = None" "list_prefix ''_log_'' (os demo_fresh) = []"
    by (simp_all add: demo_fresh_def new_Client_def new_FileObjectStorage_def list_prefix_def)
  from new_tx_id [OF a] new_tx_id [OF d(1)] a b c d show ?thesis
    by (auto simp: new_Client_def)
qed

subsection \<open>Serialization\<close>

lemma decode_dataobject_to_dict: "decode_dataobject (DataObject_to_dict d) = Inr d"
  by (simp add: decode_dataobject_def DataObject_to_dict_def and_then_def subscript_def
        as_str_def as_list_def as_int_def)

lemma decode_action_to_dict:
  assumes "variant a"
  shows "decode_action (Action_to_dict a) = Inr a"
proof (cases "add_dataobject a")
  case None
  with assms obtain m where m: "change_metadata a = Some m"
    by (auto simp: variant_def)
  with None show ?thesis
    by (simp add: decode_action_def Action_to_dict_def ChangeMetadataAction_to_dict_def
          and_then_def as_dict_def subscript_def as_str_def)
next
  case (Some d)
  with assms have "change_metadata a = None"
    by (auto simp: variant_def)
  with Some show ?thesis
    by (simp add: decode_action_def Action_to_dict_def DataobjectAction_to_dict_def
          and_then_def as_dict_def subscript_def as_str_def)
qed

lemma get_or_empty_setdefault_append:
  "get_or_empty (setdefault_append t a d) = (get_or_empty d)(t := get_or_empty d t @ [a])"
  by (auto simp: get_or_empty_def setdefault_append_def update_conv' fun_eq_iff split: option.splits)

lemma replay_actions_to_dict:
  "\<forall>a \<in> set acts. variant a \<Longrightarrow>
   \<exists>y. replay_actions t (map Action_to_dict acts) x = Inr y \<and>
       get_or_empty (previous_actions y) = (get_or_empty (previous_actions x))(t := get_or_empty (previous_actions x) t @ acts)"
proof (induction acts arbitrary: x)
  case Nil
  then show ?case by simp
next
  case (Cons a acts)
  then have va: "variant a" and rest: "\<forall>a \<in> set acts. variant a" by simp_all
  define p where "p = setdefault_append t a (previous_actions x)"
  have "\<exists>x1. replay_actions t (map Action_to_dict (a # acts)) x = replay_actions t (map Action_to_dict acts) x1
          \<and> previous_actions x1 = p"
    using va by (auto simp: decode_action_to_dict and_then_def variant_def p_def split: option.splits)
  then obtain x1 where x1: "replay_actions t (map Action_to_dict (a # acts)) x = replay_actions t (map Action_to_dict acts) x1"
    "previous_actions x1 = p" by blast
  have "\<exists>y. replay_actions t (map Action_to_dict acts) x1 = Inr y \<and>
       get_or_empty (previous_actions y) = (get_or_empty (previous_actions x1))(t := get_or_empty (previous_actions x1) t @ acts)"
    by (rule Cons.IH [OF rest])
  then obtain y where
    y: "replay_actions t (map Action_to_dict acts) x1 = Inr y"
       "get_or_empty (previous_actions y) = (get_or_empty p)(t := get_or_empty p t @ acts)"
    unfolding x1(2) by blast
  have eq: "(get_or_empty p)(t := get_or_empty p t @ acts)
      = (get_or_empty (previous_actions x))(t := get_or_empty (previous_actions x) t @ a # acts)"
    by (simp add: p_def get_or_empty_setdefault_append)
  have r: "replay_actions t (map Action_to_dict (a # acts)) x = Inr y"
    using x1(1) y(1) by (simp only:)
  have g: "get_or_empty (previous_actions y)
      = (get_or_empty (previous_actions x))(t := get_or_empty (previous_actions x) t @ a # acts)"
    using y(2) eq by (simp only:)
  from r g show ?case by blast
qed

lemma replay_tables_to_dict:
  "distinct (map fst items) \<Longrightarrow> \<forall>(t, acts) \<in> set items. \<forall>a \<in> set acts. variant a \<Longrightarrow>
   \<exists>y. replay_tables (map (\<lambda>(t, acts). (t, JArr (map Action_to_dict acts))) items) x = Inr y \<and>
       (\<forall>t. get_or_empty (previous_actions y) t = get_or_empty (previous_actions x) t @ get_or_empty items t)"
proof (induction items arbitrary: x)
  case Nil
  then show ?case by (simp add: get_or_empty_def)
next
  case (Cons item items)
  obtain t acts where item: "item = (t, acts)" by (cases item)
  from Cons.prems item have d: "distinct (map fst items)" and t: "t \<notin> fst ` set items"
    and va: "\<forall>a \<in> set acts. variant a"
    and rest: "\<forall>(t, acts) \<in> set items. \<forall>a \<in> set acts. variant a"
    by auto
  from replay_actions_to_dict [OF va, of t x] obtain x1 where
    x1: "replay_actions t (map Action_to_dict acts) x = Inr x1"
        "get_or_empty (previous_actions x1) = (get_or_empty (previous_actions x))(t := get_or_empty (previous_actions x) t @ acts)"
    by blast
  from Cons.IH [OF d rest, of x1] obtain y where
    y: "replay_tables (map (\<lambda>(t, acts). (t, JArr (map Action_to_dict acts))) items) x1 = Inr y"
       "\<forall>t'. get_or_empty (previous_actions y) t' = get_or_empty (previous_actions x1) t' @ get_or_empty items t'"
    by blast
  from t have none: "map_of items t = None"
    by (simp add: map_of_eq_None_iff)
  have "replay_tables (map (\<lambda>(t, acts). (t, JArr (map Action_to_dict acts))) (item # items)) x = Inr y"
    using item x1(1) y(1) by (simp add: as_list_def and_then_def)
  moreover have "get_or_empty (previous_actions y) t' = get_or_empty (previous_actions x) t' @ get_or_empty (item # items) t'" for t'
    using y(2) x1(2) item none by (simp add: get_or_empty_def)
  ultimately show ?case by blast
qed



subsection \<open>write_row and the flush threshold\<close>










subsection \<open>What a cursor yields\<close>

lemma next_dataobject_spec:
  "cursor_ok it s \<Longrightarrow> next_dataobject it s = (res, it') \<Longrightarrow>
     unflushed_rows it' = unflushed_rows it \<and> unflushed_row_pointer it' = unflushed_row_pointer it \<and>
     cursor_ok it' s \<and> pending_objects it' s = pending_objects it s \<and>
     ((res = Inl StopIteration \<and> pending_objects it s = []) \<or>
      (res = Inr () \<and> (\<exists>d. dataobject it' = Some d \<and> dataobject_row_pointer it' < length (do_data d))))"
proof (induction it s arbitrary: res it' rule: next_dataobject.induct)
  case (1 it s)
  show ?case
  proof (cases "case dataobject it of None \<Rightarrow> True | Some d \<Rightarrow> int (dataobject_row_pointer it) \<ge> do_length d")
    case False
    then obtain d where d: "dataobject it = Some d" "int (dataobject_row_pointer it) < do_length d"
      by (auto split: option.splits)
    with "1.prems"(1) have "dataobject_row_pointer it < length (do_data d)"
      by (simp add: cursor_ok_def)
    moreover from False "1.prems"(2) have "res = Inr ()" "it' = it"
      by (simp_all add: next_dataobject.simps [of it s])
    ultimately show ?thesis using d "1.prems"(1) by simp
  next
    case used_up: True
    then have cur: "(case dataobject it of None \<Rightarrow> [] | Some d \<Rightarrow> drop (dataobject_row_pointer it) (do_data d)) = []"
      using "1.prems"(1) by (auto simp: cursor_ok_def split: option.splits)
    show ?thesis
    proof (cases "dataobjects_pointer it \<ge> length (dataobjects it)")
      case True
      with used_up "1.prems"(2) have "res = Inl StopIteration" "it' = it"
        by (simp_all add: next_dataobject.simps [of it s])
      with True cur "1.prems"(1) show ?thesis
        by (simp add: pending_objects_def)
    next
      case False
      let ?n = "dataobjects it ! dataobjects_pointer it"
      from False have split: "drop (dataobjects_pointer it) (dataobjects it) = ?n # drop (Suc (dataobjects_pointer it)) (dataobjects it)"
        by (simp add: Cons_nth_drop_Suc)
      with "1.prems"(1) have "intact s (si_table it) ?n"
        by (simp add: cursor_ok_def)
      then obtain d where d: "load_dataobject s (si_table it) ?n = Inr d" "do_length d = int (length (do_data d))"
        by (auto simp: intact_def split: sum.splits)
      let ?it2 = "it\<lparr>dataobject := Some d, dataobjects_pointer := Suc (dataobjects_pointer it), dataobject_row_pointer := 0\<rparr>"
      from used_up False d "1.prems"(2) have run: "next_dataobject ?it2 s = (res, it')"
        by (simp add: next_dataobject.simps [of it s])
      have ok2: "cursor_ok ?it2 s"
        using "1.prems"(1) d(2) split by (simp add: cursor_ok_def)
      have same: "pending_objects ?it2 s = pending_objects it s"
        using cur split d(1) by (simp add: pending_objects_def stored_rows_def)
      from "1.IH" [OF used_up False d(1) ok2 run] same show ?thesis
        by simp
    qed
  qed
qed

lemma pending_objects_unflushed:
  "pending_objects (it\<lparr>unflushed_row_pointer := p\<rparr>) s = pending_objects it s"
  by (simp add: pending_objects_def cong: option.case_cong)

lemma pending_objects_step:
  assumes "dataobject it = Some d" and "dataobject_row_pointer it < length (do_data d)"
  shows "pending_objects it s =
     do_data d ! dataobject_row_pointer it #
     pending_objects (it\<lparr>dataobject_row_pointer := Suc (dataobject_row_pointer it)\<rparr>) s"
  using assms by (simp add: pending_objects_def Cons_nth_drop_Suc)

lemma ScanIterator_next_spec:
  assumes "cursor_ok it (os c)"
  shows "(pending it c = [] \<and> fst (ScanIterator_next it c) = Inl StopIteration)
       \<or> (\<exists>row it'. ScanIterator_next it c = (Inr row, it') \<and> pending it c = row # pending it' c \<and>
             cursor_ok it' (os c))"
proof (cases "unflushed_row_pointer it < length (heap c (unflushed_rows it))")
  case True
  let ?it' = "it\<lparr>unflushed_row_pointer := Suc (unflushed_row_pointer it)\<rparr>"
  from True have "ScanIterator_next it c = (Inr (heap c (unflushed_rows it) ! unflushed_row_pointer it), ?it')"
    by (simp add: ScanIterator_next_def)
  moreover from True have "pending it c = heap c (unflushed_rows it) ! unflushed_row_pointer it # pending ?it' c"
    by (simp add: pending_def pending_objects_unflushed Cons_nth_drop_Suc)
  moreover from assms have "cursor_ok ?it' (os c)"
    by (simp add: cursor_ok_def)
  ultimately show ?thesis by blast
next
  case False
  obtain res it1 where nd: "next_dataobject it (os c) = (res, it1)"
    by (cases "next_dataobject it (os c)")
  note spec = next_dataobject_spec [OF assms nd]
  from False spec have pend: "pending it c = pending_objects it (os c)" "pending it1 c = pending_objects it (os c)"
    by (simp_all add: pending_def)
  from spec consider "res = Inl StopIteration" "pending_objects it (os c) = []"
    | d where "res = Inr ()" "dataobject it1 = Some d" "dataobject_row_pointer it1 < length (do_data d)"
    by blast
  then show ?thesis
  proof cases
    case 1
    with False nd pend show ?thesis
      by (simp add: ScanIterator_next_def)
  next
    case 2
    let ?it' = "it1\<lparr>dataobject_row_pointer := Suc (dataobject_row_pointer it1)\<rparr>"
    from False nd 2 have "ScanIterator_next it c = (Inr (do_data d ! dataobject_row_pointer it1), ?it')"
      by (simp add: ScanIterator_next_def)
    moreover have "pending it c = do_data d ! dataobject_row_pointer it1 # pending ?it' c"
    proof -
      have "pending it c = pending_objects it1 (os c)"
        using pend spec by simp
      also have "\<dots> = do_data d ! dataobject_row_pointer it1 # pending_objects ?it' (os c)"
        by (rule pending_objects_step [OF 2(2,3)])
      also have "pending_objects ?it' (os c) = pending ?it' c"
        using False spec by (simp add: pending_def)
      finally show ?thesis .
    qed
    moreover from spec 2 have "cursor_ok ?it' (os c)"
      by (simp add: cursor_ok_def)
    ultimately show ?thesis by blast
  qed
qed

lemma rows_of_pending:
  "cursor_ok it (os c) \<Longrightarrow> length (pending it c) \<le> fuel \<Longrightarrow> rows_of fuel it c = Some (Inr (pending it c))"
proof (induction fuel arbitrary: it)
  case 0
  with ScanIterator_next_spec [OF "0.prems"(1)] have "fst (ScanIterator_next it c) = Inl StopIteration"
    by auto
  with 0 show ?case
    by (cases "ScanIterator_next it c") (simp add: rows_of.simps)
next
  case (Suc fuel)
  from ScanIterator_next_spec [OF Suc.prems(1)]
  consider "pending it c = []" "fst (ScanIterator_next it c) = Inl StopIteration"
    | row it' where "ScanIterator_next it c = (Inr row, it')" "pending it c = row # pending it' c" "cursor_ok it' (os c)"
    by blast
  then show ?case
  proof cases
    case 1
    then show ?thesis
      by (cases "ScanIterator_next it c") (simp add: rows_of.simps)
  next
    case 2
    with Suc.prems(2) have "length (pending it' c) \<le> fuel" by simp
    from Suc.IH [OF 2(3) this] 2 show ?thesis
      by (simp add: rows_of.simps [of "Suc fuel"])
  qed
qed

subsection \<open>scan yields buffer rows, then data objects\<close>

text \<open>
  C3: for every open transaction and every table, the cursor that \<open>scan\<close> returns
  yields exactly the rows now in the table's buffer, in insertion order, and then the
  rows of each data object named by the \<open>AddDataobject\<close> actions of
  \<open>previous_actions[table] ++ actions[table]\<close>, in that order, each data object's rows in
  stored order; then it stops.  (The data objects named are taken to be in the store as
  \<open>flush_rows\<close> writes them.)  Iterating with at least as much fuel as there are rows
  returns that list.
\<close>

theorem scan_yields:
  assumes "tx c = Some x"
    and "\<forall>n \<in> set (scan_names x t). intact (os c) t n"
  shows "\<exists>it c'. scan t c = (Inr it, c') \<and> tx c' = tx c \<and> os c' = os c \<and>
           (\<forall>fuel. length (buffer t c @ concat (map (stored_rows (os c) t) (scan_names x t))) \<le> fuel \<longrightarrow>
              rows_of fuel it c' = Some (Inr (buffer t c @ concat (map (stored_rows (os c) t) (scan_names x t)))))"
proof -
  obtain it c' where sc: "scan t c = (Inr it, c')"
    using scan_open [OF assms(1)] by blast
  from sc scan_open [OF assms(1), of t]
  have it: "si_table it = t" "unflushed_row_pointer it = 0" "dataobjects it = scan_names x t"
    "dataobjects_pointer it = 0" "dataobject it = None"
    and frame: "tx c' = tx c" "os c' = os c"
    and buf: "heap c' (unflushed_rows it) = buffer t c"
    using assms(1) by (auto simp: scan_names_def buffer_def split: option.splits)
  from it assms(2) frame have ok: "cursor_ok it (os c')"
    by (simp add: cursor_ok_def)
  from it buf frame have "pending it c' = buffer t c @ concat (map (stored_rows (os c) t) (scan_names x t))"
    by (simp add: pending_def pending_objects_def)
  with rows_of_pending [OF ok] sc frame show ?thesis
    by (intro exI [of _ it] exI [of _ c']) simp
qed

lemma demo_rw_eq:
  "demo_rw = \<lparr>os = demo_store, tx = Some (demo_reader_tx\<lparr>unflushed_data := [(''x'', 0)]\<rparr>),
      heap = (\<lambda>_. [])(0 := [demo_row 3]), next_ref = 1, uuids = demo_uuids, drawn = 0\<rparr>"
  by (simp add: demo_rw_def demo_reader_eq write_row_def demo_reader_tx_def Let_def)

theorem scan_yields_witness:
  "tx demo_rw = Some (demo_reader_tx\<lparr>unflushed_data := [(''x'', 0)]\<rparr>) \<and>
   scan_names (demo_reader_tx\<lparr>unflushed_data := [(''x'', 0)]\<rparr>) ''x'' = [''uuid0''] \<and>
   intact (os demo_rw) ''x'' ''uuid0'' \<and>
   (\<exists>it c'. scan ''x'' demo_rw = (Inr it, c') \<and> rows_of 2 it c' = Some (Inr [demo_row 3, demo_row 1]))"
proof -
  let ?x = "demo_reader_tx\<lparr>unflushed_data := [(''x'', 0)]\<rparr>"
  have a: "tx demo_rw = Some ?x"
    by (simp add: demo_rw_eq)
  have n: "scan_names ?x ''x'' = [''uuid0'']"
    by (simp add: scan_names_def demo_reader_tx_def get_or_empty_def List.map_filter_simps demo_action_fields)
  have l: "load_dataobject demo_store ''x'' ''uuid0''
             = Inr \<lparr>do_table = ''x'', do_name = ''uuid0'', do_data = [demo_row 1], do_length = 1\<rparr>"
    by (simp add: load_dataobject_def read_def demo_store_def table_filename_def and_then_def
          demo_data_doc_def decode_dataobject_to_dict)
  have i: "intact (os demo_rw) ''x'' ''uuid0''"
    by (simp add: intact_def demo_rw_eq l)
  from n i have b: "\<forall>n \<in> set (scan_names ?x ''x''). intact (os demo_rw) ''x'' n"
    by simp
  have rows: "buffer ''x'' demo_rw @ concat (map (stored_rows (os demo_rw) ''x'') (scan_names ?x ''x''))
                = [demo_row 3, demo_row 1]"
    by (simp add: n buffer_def stored_rows_def l demo_rw_eq)
  from scan_yields [OF a b] obtain it c' where
    "scan ''x'' demo_rw = (Inr it, c')"
    "\<forall>fuel. length (buffer ''x'' demo_rw @ concat (map (stored_rows (os demo_rw) ''x'') (scan_names ?x ''x''))) \<le> fuel \<longrightarrow>
        rows_of fuel it c' = Some (Inr (buffer ''x'' demo_rw @ concat (map (stored_rows (os demo_rw) ''x'') (scan_names ?x ''x''))))"
    by blast
  then have "scan ''x'' demo_rw = (Inr it, c') \<and> rows_of 2 it c' = Some (Inr [demo_row 3, demo_row 1])"
    unfolding rows by simp
  with a n i show ?thesis by blast
qed

subsection \<open>Well-formed stores and clients\<close>

lemma good_actions_iff:
  "good_actions s d \<longleftrightarrow> (\<forall>t acts a. (t, acts) \<in> set d \<longrightarrow> a \<in> set acts \<longrightarrow> good_action s t a)"
  unfolding good_actions_def list_all_iff by fastforce

lemma variants_iff:
  "list_all (\<lambda>(t, acts). list_all variant acts) d \<longleftrightarrow> (\<forall>t acts a. (t, acts) \<in> set d \<longrightarrow> a \<in> set acts \<longrightarrow> variant a)"
  unfolding list_all_iff by fastforce

lemma store_inv_iff:
  "store_inv s \<longleftrightarrow>
     (\<forall>f doc t a. (f, doc) \<in> set (files s) \<longrightarrow> (t, a) \<in> set (entry_actions doc) \<longrightarrow> good_action s t a) \<and>
     (\<forall>f doc. (f, doc) \<in> set (files s) \<longrightarrow> log_ok f doc)"
  unfolding store_inv_def list_all_iff by fastforce

lemma extends_refl: "extends s s"
  by (simp add: extends_def)

lemma extends_same_files: "files s' = files s \<Longrightarrow> extends s s'"
  by (simp add: extends_def)

lemma extends_trans: "extends s s' \<Longrightarrow> extends s' s'' \<Longrightarrow> extends s s''"
  by (auto simp: extends_def)

lemma read_extends:
  assumes "extends s s'" and "read f s = Inr b"
  shows "read f s' = Inr b"
proof -
  from assms(1) obtain more where m: "files s' = files s @ more"
    by (auto simp: extends_def)
  from assms(2) have "map_of (files s) f = Some b"
    by (simp add: read_def split: option.splits)
  with m show ?thesis
    by (simp add: read_def map_add_Some_iff)
qed

lemma intact_extends:
  assumes "extends s s'" and "intact s t n"
  shows "intact s' t n"
proof -
  from assms(2) obtain b where "read (table_filename t n) s = Inr b"
    by (cases "read (table_filename t n) s") (auto simp: intact_def load_dataobject_def and_then_def)
  with read_extends [OF assms(1) this] assms(2) show ?thesis
    by (simp add: intact_def load_dataobject_def)
qed

lemma good_action_extends: "extends s s' \<Longrightarrow> good_action s t a \<Longrightarrow> good_action s' t a"
  by (auto simp: good_action_def intact_extends split: option.splits)

lemma good_actions_extends: "extends s s' \<Longrightarrow> good_actions s d \<Longrightarrow> good_actions s' d"
  unfolding good_actions_iff using good_action_extends by blast

lemma client_inv_extends: "extends s s' \<Longrightarrow> client_inv s c \<Longrightarrow> client_inv s' c"
  by (auto simp: client_inv_def good_actions_extends split: option.splits)

lemma store_inv_extends_files:
  assumes "store_inv s" and "files s' = files s @ [(f, doc)]"
    and "\<forall>t a. (t, a) \<in> set (entry_actions doc) \<longrightarrow> good_action s' t a"
    and "log_ok f doc"
  shows "store_inv s'"
proof -
  from assms(2) have e: "extends s s'" by (simp add: extends_def)
  have "good_action s' t a" if "(g, doc') \<in> set (files s')" and ta: "(t, a) \<in> set (entry_actions doc')"
    for g doc' t a
  proof -
    from that(1) assms(2) consider "(g, doc') \<in> set (files s)" | "doc' = doc" by auto
    then show ?thesis
    proof cases
      case 1
      with assms(1) ta have "good_action s t a" unfolding store_inv_iff by blast
      with e show ?thesis by (rule good_action_extends)
    next
      case 2
      with assms(3) ta show ?thesis by simp
    qed
  qed
  moreover have "log_ok g doc'" if "(g, doc') \<in> set (files s')" for g doc'
    using that assms(1,2,4) unfolding store_inv_iff by auto
  ultimately show ?thesis
    unfolding store_inv_iff by blast
qed

lemma store_inv_same_files:
  assumes "store_inv s" and "files s' = files s"
  shows "store_inv s'"
proof -
  from assms(2) have e: "extends s s'" by (rule extends_same_files)
  from assms show ?thesis
    unfolding store_inv_iff using good_action_extends [OF e] by metis
qed

lemma client_inv_same_files: "client_inv s c \<Longrightarrow> files s' = files s \<Longrightarrow> client_inv s' c"
  by (rule client_inv_extends [OF extends_same_files]) simp_all

text \<open>Entries of a dict after \<open>setdefault(k, []).append(a)\<close>.\<close>

lemma in_set_update: "(k, v) \<in> set (AList.update t w d) \<Longrightarrow> (k, v) \<in> set d \<or> (k, v) = (t, w)"
  by (induction d) (auto split: if_splits)

lemma in_set_setdefault_append:
  assumes "(k, v) \<in> set (setdefault_append t a d)"
  shows "(k, v) \<in> set d \<or> (k = t \<and> (v = [a] \<or> (\<exists>xs. (t, xs) \<in> set d \<and> v = xs @ [a])))"
proof (cases "map_of d t")
  case None
  with assms in_set_update [of k v t "[a]" d] show ?thesis
    by (auto simp: setdefault_append_def)
next
  case (Some xs)
  then have "(t, xs) \<in> set d" by (rule map_of_SomeD)
  with Some assms in_set_update [of k v t "xs @ [a]" d] show ?thesis
    by (auto simp: setdefault_append_def)
qed

lemma good_actions_setdefault_append:
  assumes "good_actions s d" and "good_action s t a"
  shows "good_actions s (setdefault_append t a d)"
  unfolding good_actions_iff
proof (intro allI impI)
  fix k v b assume kv: "(k, v) \<in> set (setdefault_append t a d)" and b: "b \<in> set v"
  from in_set_setdefault_append [OF kv] assms b show "good_action s k b"
    unfolding good_actions_iff by auto
qed

lemma variants_setdefault_append:
  assumes "list_all (\<lambda>(t, acts). list_all variant acts) d" and "variant a"
  shows "list_all (\<lambda>(t, acts). list_all variant acts) (setdefault_append t a d)"
  unfolding variants_iff
proof (intro allI impI)
  fix k v b assume kv: "(k, v) \<in> set (setdefault_append t a d)" and b: "b \<in> set v"
  from in_set_setdefault_append [OF kv] assms b show "variant b"
    unfolding variants_iff by auto
qed

lemma distinct_setdefault_append:
  "distinct (map fst d) \<Longrightarrow> distinct (map fst (setdefault_append t a d))"
  by (simp add: setdefault_append_def distinct_update split: option.splits)

lemma actions_wf_setdefault_append:
  assumes "actions_wf x" and "variant a" and "actions x' = setdefault_append t a (actions x)"
  shows "actions_wf x'"
  using assms by (simp add: actions_wf_def variants_setdefault_append distinct_setdefault_append)

subsection \<open>Calls keep stores and clients well-formed\<close>

lemma kept_refl: "store_inv (os c) \<Longrightarrow> client_inv (os c) c \<Longrightarrow> kept c c"
  by (simp add: kept_def extends_refl)

lemma kept_trans: "kept c c1 \<Longrightarrow> kept c1 c2 \<Longrightarrow> kept c c2"
  by (auto simp: kept_def intro: extends_trans)

lemma refs_ok_cong: "tx c' = tx c \<Longrightarrow> next_ref c \<le> next_ref c' \<Longrightarrow> refs_ok c \<Longrightarrow> refs_ok c'"
  by (auto simp: refs_ok_def list_all_iff split: option.splits)

lemma client_inv_cong: "tx c' = tx c \<Longrightarrow> next_ref c \<le> next_ref c' \<Longrightarrow> client_inv s c \<Longrightarrow> client_inv s c'"
  by (auto simp: client_inv_def refs_ok_cong)

lemma client_inv_closed: "tx c' = None \<Longrightarrow> client_inv s c'"
  by (simp add: client_inv_def refs_ok_def)

lemma client_inv_open:
  "tx c = Some x \<Longrightarrow> client_inv s c \<longleftrightarrow>
     list_all (\<lambda>(t, r). r < next_ref c) (unflushed_data x) \<and>
     good_actions s (previous_actions x) \<and> good_actions s (actions x) \<and> actions_wf x"
  by (simp add: client_inv_def refs_ok_def)

lemma refs_update:
  assumes "list_all (\<lambda>(t, r). r < n) d"
  shows "list_all (\<lambda>(t, r). r < Suc n) (AList.update k n d)"
  unfolding list_all_iff
proof (intro ballI, clarify)
  fix t r assume "(t, r) \<in> set (AList.update k n d)"
  from in_set_update [OF this] assms show "r < Suc n"
    by (auto simp: list_all_iff)
qed

subsection \<open>flush_rows keeps the invariants\<close>

lemma entry_actions_data_doc: "entry_actions (DataObject_to_dict d) = []"
  by (simp add: entry_actions_def DataObject_to_dict_def subscript_def and_then_def)

lemma intact_after_put:
  assumes "files s' = files s @ [(table_filename t (uuids c (drawn c)), flush_blob t r c)]"
    and "table_filename t (uuids c (drawn c)) \<notin> fst ` set (files s)"
  shows "intact s' t (uuids c (drawn c))"
proof -
  from assms(2) have "map_of (files s) (table_filename t (uuids c (drawn c))) = None"
    by (simp add: map_of_eq_None_iff)
  with assms(1) have "read (table_filename t (uuids c (drawn c))) s' = Inr (flush_blob t r c)"
    by (simp add: read_def map_add_def)
  then show ?thesis
    by (simp add: intact_def load_dataobject_def and_then_def flush_blob_def decode_dataobject_to_dict)
qed

lemma flush_rows_kept:
  assumes "store_inv (os c)" and "client_inv (os c) c"
  shows "kept c (snd (flush_rows t c))"
proof (cases "tx c")
  case None
  with assms show ?thesis by (simp add: flush_rows_def kept_refl)
next
  case (Some x)
  show ?thesis
  proof (cases "map_of (unflushed_data x) t = None \<or> (\<exists>r. map_of (unflushed_data x) t = Some r \<and> heap c r = [])")
    case True
    from flush_rows_idle [OF Some True] assms show ?thesis by (simp add: kept_refl)
  next
    case False
    then obtain r where r: "map_of (unflushed_data x) t = Some r" "heap c r \<noteq> []" by auto
    let ?f = "table_filename t (uuids c (drawn c))"
    obtain pr s' where p: "put_if_absent ?f (flush_blob t r c) (os c) = (pr, s')"
      by (cases "put_if_absent ?f (flush_blob t r c) (os c)")
    note run = flush_rows_busy [OF Some r p]
    note files = put_if_absent_files [OF p]
    show ?thesis
    proof (cases pr)
      case (Inl e)
      with files have same: "files s' = files (os c)" by simp
      let ?c' = "c\<lparr>drawn := Suc (drawn c), os := s'\<rparr>"
      from Inl run have c': "snd (flush_rows t c) = ?c'" by simp
      have "client_inv s' ?c'"
        by (rule client_inv_cong [OF _ _ client_inv_same_files [OF assms(2) same]]) simp_all
      with same assms(1) show ?thesis
        unfolding c' by (simp add: kept_def extends_same_files store_inv_same_files)
    next
      case (Inr u)
      with files have grown: "files s' = files (os c) @ [(?f, flush_blob t r c)]"
        and fresh: "?f \<notin> fst ` set (files (os c))" by simp_all
      from grown have e: "extends (os c) s'" by (auto simp: extends_def)
      let ?a = "\<lparr>add_dataobject = Some \<lparr>ada_name = uuids c (drawn c), ada_table = t\<rparr>, change_metadata = None\<rparr>"
      from Inr run have c': "snd (flush_rows t c) = flushed t x c s'" by simp
      have st: "store_inv s'"
        by (rule store_inv_extends_files [OF assms(1) grown])
           (simp_all add: flush_blob_def entry_actions_data_doc log_ok_def startswith_def table_filename_def)
      from assms(2) Some have old: "list_all (\<lambda>(t, r). r < next_ref c) (unflushed_data x)"
        "good_actions (os c) (previous_actions x)" "good_actions (os c) (actions x)" "actions_wf x"
        by (simp_all add: client_inv_open)
      have ga: "good_action s' t ?a"
        using intact_after_put [OF grown fresh] by (simp add: good_action_def)
      let ?x' = "x\<lparr>actions := setdefault_append t ?a (actions x),
                   unflushed_data := AList.update t (next_ref c) (unflushed_data x)\<rparr>"
      have tx': "tx (flushed t x c s') = Some ?x'" and nr: "next_ref (flushed t x c s') = Suc (next_ref c)"
        by (simp_all add: flushed_def)
      have "actions_wf ?x'"
        by (rule actions_wf_setdefault_append [OF old(4), of ?a _ t]) (simp_all add: variant_def)
      with old ga e have "client_inv s' (flushed t x c s')"
        unfolding client_inv_open [OF tx'] nr
        by (simp add: refs_update good_actions_extends good_actions_setdefault_append)
      with st e show ?thesis
        unfolding c' by (simp add: kept_def flushed_def)
    qed
  qed
qed

subsection \<open>flush_tables keeps the invariants\<close>

lemma flush_tables_kept:
  "store_inv (os c) \<Longrightarrow> client_inv (os c) c \<Longrightarrow> kept c (snd (flush_tables ts c))"
proof (induction ts arbitrary: c)
  case Nil
  then show ?case by (simp add: kept_refl)
next
  case (Cons t ts)
  obtain r1 c1 where f: "flush_rows t c = (r1, c1)" by (cases "flush_rows t c")
  from flush_rows_kept [OF Cons.prems, of t] f have k1: "kept c c1" by simp
  show ?case
  proof (cases r1)
    case (Inl e)
    with f k1 show ?thesis by simp
  next
    case (Inr u)
    from k1 have "kept c1 (snd (flush_tables ts c1))"
      by (intro Cons.IH) (simp_all add: kept_def)
    with k1 Inr f show ?thesis
      by (auto intro: kept_trans)
  qed
qed

subsection \<open>write_row, create_table and scan keep the invariants\<close>

lemma write_row_kept:
  assumes "store_inv (os c)" and "client_inv (os c) c"
  shows "kept c (snd (write_row sz t row c))"
proof (cases "tx c")
  case None
  with assms show ?thesis by (simp add: write_row_def kept_refl)
next
  case (Some x)
  show ?thesis
  proof (cases "t \<in> fst ` set (tables x)")
    case False
    with Some assms show ?thesis by (simp add: write_row_def kept_refl)
  next
    case True
    from assms(2) Some have old: "list_all (\<lambda>(t, r). r < next_ref c) (unflushed_data x)"
      "good_actions (os c) (previous_actions x)" "good_actions (os c) (actions x)" "actions_wf x"
      by (simp_all add: client_inv_open)
    have "\<exists>c1. os c1 = os c \<and> client_inv (os c) c1 \<and>
            (write_row sz t row c = flush_rows t c1 \<or> write_row sz t row c = (Inr (), c1))"
    proof (cases "map_of (unflushed_data x) t")
      case None
      let ?x1 = "x\<lparr>unflushed_data := AList.update t (next_ref c) (unflushed_data x)\<rparr>"
      let ?c1 = "c\<lparr>tx := Some ?x1, next_ref := Suc (next_ref c), heap := (heap c)(next_ref c := [row])\<rparr>"
      have tx1: "tx ?c1 = Some ?x1" by simp
      have "client_inv (os c) ?c1"
        unfolding client_inv_open [OF tx1] using old
        by (simp add: refs_update actions_wf_def)
      moreover have "write_row sz t row c = flush_rows t ?c1 \<or> write_row sz t row c = (Inr (), ?c1)"
        using Some True None by (simp add: write_row_def Let_def)
      ultimately show ?thesis
        by (intro exI [of _ ?c1]) simp
    next
      case (Some r)
      let ?c1 = "c\<lparr>heap := (heap c)(r := heap c r @ [row])\<rparr>"
      have "client_inv (os c) ?c1"
        by (rule client_inv_cong [OF _ _ assms(2)]) simp_all
      moreover have "write_row sz t row c = flush_rows t ?c1 \<or> write_row sz t row c = (Inr (), ?c1)"
        using \<open>tx c = Some x\<close> True Some by (simp add: write_row_def Let_def)
      ultimately show ?thesis
        by (intro exI [of _ ?c1]) simp
    qed
    then obtain c1 where c1: "os c1 = os c" "client_inv (os c) c1"
      and run: "write_row sz t row c = flush_rows t c1 \<or> write_row sz t row c = (Inr (), c1)"
      by blast
    from c1 assms(1) have k1: "kept c c1"
      by (simp add: kept_def extends_refl)
    from c1 assms(1) have "kept c1 (snd (flush_rows t c1))"
      by (intro flush_rows_kept) simp_all
    with k1 have "kept c (snd (flush_rows t c1))" by (rule kept_trans)
    with k1 run show ?thesis by auto
  qed
qed

lemma create_table_kept:
  assumes "store_inv (os c)" and "client_inv (os c) c"
  shows "kept c (snd (create_table t cols c))"
proof (cases "tx c")
  case None
  with assms show ?thesis by (simp add: create_table_def kept_refl)
next
  case (Some x)
  show ?thesis
  proof (cases "t \<in> fst ` set (tables x)")
    case True
    with Some assms show ?thesis by (simp add: create_table_def kept_refl)
  next
    case False
    let ?a = "\<lparr>add_dataobject = None, change_metadata = Some \<lparr>cma_table = t, cma_columns = cols\<rparr>\<rparr>"
    let ?x' = "x\<lparr>tables := AList.update t cols (tables x), actions := setdefault_append t ?a (actions x)\<rparr>"
    let ?c' = "c\<lparr>tx := Some ?x'\<rparr>"
    from Some False have c': "snd (create_table t cols c) = ?c'"
      by (simp add: create_table_def)
    from assms(2) Some have old: "list_all (\<lambda>(t, r). r < next_ref c) (unflushed_data x)"
      "good_actions (os c) (previous_actions x)" "good_actions (os c) (actions x)" "actions_wf x"
      by (simp_all add: client_inv_open)
    have tx': "tx ?c' = Some ?x'" by simp
    have "actions_wf ?x'"
      by (rule actions_wf_setdefault_append [OF old(4), of ?a _ t]) (simp_all add: variant_def)
    with old have "client_inv (os c) ?c'"
      unfolding client_inv_open [OF tx']
      by (simp add: good_actions_setdefault_append good_action_def)
    with assms(1) show ?thesis
      unfolding c' by (simp add: kept_def extends_refl)
  qed
qed

lemma scan_kept:
  assumes "store_inv (os c)" and "client_inv (os c) c"
  shows "kept c (snd (scan t c))"
proof (cases "tx c")
  case None
  with assms show ?thesis by (simp add: scan_def kept_refl)
next
  case (Some x)
  have "tx (snd (scan t c)) = tx c" "next_ref c \<le> next_ref (snd (scan t c))" "os (snd (scan t c)) = os c"
    by (simp_all add: scan_open [OF Some] split: option.splits)
  with assms show ?thesis
    by (simp add: kept_def extends_refl client_inv_cong)
qed

subsection \<open>new_tx keeps the invariants\<close>

lemma entry_actions_mem:
  assumes "and_then (subscript doc ''Actions'') as_dict = Inr items"
    and "(t, acts) \<in> set items" and "as_list acts = Inr acts'"
    and "a \<in> set acts'" and "decode_action a = Inr act"
  shows "(t, act) \<in> set (entry_actions doc)"
proof -
  from assms(4,5) have "(t, act) \<in> set (List.map_filter (\<lambda>a. case decode_action a of Inl _ \<Rightarrow> None | Inr act \<Rightarrow> Some (t, act)) acts')"
    by (force simp: List.map_filter_def)
  with assms(1,2,3) show ?thesis
    by (force simp: entry_actions_def)
qed

lemma replay_actions_good:
  assumes "\<forall>a act. a \<in> set acts \<longrightarrow> decode_action a = Inr act \<longrightarrow> good_action s t act"
    and "good_actions s (previous_actions x)" and "replay_actions t acts x = Inr x'"
  shows "good_actions s (previous_actions x') \<and> actions x' = actions x \<and> unflushed_data x' = unflushed_data x"
  using assms
proof (induction acts arbitrary: x)
  case Nil
  then show ?case by simp
next
  case (Cons a acts)
  from Cons.prems(3) obtain act where act: "decode_action a = Inr act"
    by (auto simp: and_then_Inr)
  with Cons.prems(1) have g: "good_action s t act" by simp
  define p where "p = setdefault_append t act (previous_actions x)"
  from Cons.prems(2) g have gp: "good_actions s p"
    unfolding p_def by (rule good_actions_setdefault_append)
  from Cons.prems(3) act obtain x1 where x1: "replay_actions t acts x1 = Inr x'"
    "previous_actions x1 = p" "actions x1 = actions x" "unflushed_data x1 = unflushed_data x"
    by (auto simp: and_then_def p_def split: option.splits)
  from Cons.prems(1) have "\<forall>a act. a \<in> set acts \<longrightarrow> decode_action a = Inr act \<longrightarrow> good_action s t act"
    by simp
  from Cons.IH [OF this _ x1(1)] gp x1 show ?case by simp
qed

lemma replay_tables_good:
  assumes "\<forall>t acts acts' a act. (t, acts) \<in> set items \<longrightarrow> as_list acts = Inr acts' \<longrightarrow> a \<in> set acts' \<longrightarrow>
             decode_action a = Inr act \<longrightarrow> good_action s t act"
    and "good_actions s (previous_actions x)" and "replay_tables items x = Inr x'"
  shows "good_actions s (previous_actions x') \<and> actions x' = actions x \<and> unflushed_data x' = unflushed_data x"
  using assms
proof (induction items arbitrary: x)
  case Nil
  then show ?case by simp
next
  case (Cons item items)
  obtain t acts where item: "item = (t, acts)" by (cases item)
  from Cons.prems(3) item obtain acts' x1 where acts': "as_list acts = Inr acts'"
    and x1: "replay_actions t acts' x = Inr x1" and rest: "replay_tables items x1 = Inr x'"
    by (auto simp: and_then_Inr)
  from Cons.prems(1) item acts'
  have "\<forall>a act. a \<in> set acts' \<longrightarrow> decode_action a = Inr act \<longrightarrow> good_action s t act"
    by auto
  from replay_actions_good [OF this Cons.prems(2) x1]
  have g1: "good_actions s (previous_actions x1)" and same: "actions x1 = actions x" "unflushed_data x1 = unflushed_data x"
    by simp_all
  from Cons.prems(1) have "\<forall>t acts acts' a act. (t, acts) \<in> set items \<longrightarrow> as_list acts = Inr acts' \<longrightarrow> a \<in> set acts' \<longrightarrow>
             decode_action a = Inr act \<longrightarrow> good_action s t act"
    by auto
  from Cons.IH [OF this g1 rest] same show ?case by simp
qed

lemma replay_log_good:
  assumes "store_inv s" and "good_actions s (previous_actions x)" and "replay_log fs s (m, x) = Inr (m', x')"
  shows "good_actions s (previous_actions x') \<and> actions x' = actions x \<and> unflushed_data x' = unflushed_data x"
  using assms(2,3)
proof (induction fs arbitrary: m x)
  case Nil
  then show ?case by simp
next
  case (Cons f fs)
  from Cons.prems(2) obtain doc m1 x1 where doc: "read f s = Inr doc"
    and e: "replay_entry doc (m, x) = Inr (m1, x1)"
    and rest: "replay_log fs s (m1, x1) = Inr (m', x')"
    by (auto simp: and_then_Inr)
  from doc have mem: "(f, doc) \<in> set (files s)"
    by (auto simp: read_def split: option.splits dest: map_of_SomeD)
  from e obtain items where items: "and_then (subscript doc ''Actions'') as_dict = Inr items"
    and rt: "replay_tables items x = Inr x1"
    by (auto simp: replay_entry_def and_then_Inr)
  have "\<forall>t acts acts' a act. (t, acts) \<in> set items \<longrightarrow> as_list acts = Inr acts' \<longrightarrow> a \<in> set acts' \<longrightarrow>
             decode_action a = Inr act \<longrightarrow> good_action s t act"
    using entry_actions_mem [OF items] assms(1) mem unfolding store_inv_iff by blast
  from replay_tables_good [OF this Cons.prems(1) rt]
  have g1: "good_actions s (previous_actions x1)" and same: "actions x1 = actions x" "unflushed_data x1 = unflushed_data x"
    by simp_all
  from Cons.IH [OF g1 rest] same show ?case by simp
qed

lemma new_tx_kept:
  assumes "store_inv (os c)" and "client_inv (os c) c"
  shows "kept c (snd (new_tx c))"
proof (cases "tx c")
  case (Some x)
  with assms show ?thesis by (simp add: new_tx_def kept_refl)
next
  case None
  show ?thesis
  proof (cases "replay_log (sort (list_prefix ''_log_'' (os c))) (os c) (0, new_Transaction 0)")
    case (Inl e)
    with None assms show ?thesis by (simp add: new_tx_def kept_refl)
  next
    case (Inr acc)
    obtain m x where acc: "acc = (m, x)" by (cases acc)
    let ?c' = "c\<lparr>tx := Some (x\<lparr>tx_id := m + 1\<rparr>)\<rparr>"
    from None Inr acc have c': "snd (new_tx c) = ?c'" by (simp add: new_tx_def)
    have "good_actions (os c) (previous_actions (new_Transaction 0))"
      by (simp add: good_actions_def new_Transaction_def)
    from replay_log_good [OF assms(1) this Inr [unfolded acc]]
    have "good_actions (os c) (previous_actions x)" "actions x = []" "unflushed_data x = []"
      by (simp_all add: new_Transaction_def)
    then have "client_inv (os c) ?c'"
      by (simp add: client_inv_def refs_ok_def good_actions_def actions_wf_def)
    with assms(1) show ?thesis
      unfolding c' by (simp add: kept_def extends_refl)
  qed
qed

subsection \<open>commit_tx keeps the invariants\<close>

lemma decode_action_add_dataobject:
  assumes "decode_action (Action_to_dict a) = Inr a'"
  shows "add_dataobject a' = add_dataobject a"
proof (cases "add_dataobject a")
  case (Some d)
  with assms show ?thesis
    by (auto simp: decode_action_def Action_to_dict_def DataobjectAction_to_dict_def
          and_then_def as_dict_def subscript_def as_str_def)
next
  case None
  with assms show ?thesis
    by (cases "change_metadata a")
       (auto simp: decode_action_def Action_to_dict_def ChangeMetadataAction_to_dict_def
          and_then_def as_dict_def subscript_def as_str_def)
qed

lemma entry_actions_tx_data:
  assumes "(t, a') \<in> set (entry_actions (tx_data x))"
  shows "\<exists>acts a. (t, acts) \<in> set (actions x) \<and> a \<in> set acts \<and> decode_action (Action_to_dict a) = Inr a'"
proof -
  from assms obtain acts a where "(t, acts) \<in> set (actions x)" "a \<in> set acts"
    "decode_action (Action_to_dict a) = Inr a'"
    by (auto simp: entry_actions_def tx_data_def subscript_def and_then_def as_dict_def as_list_def
          List.map_filter_def split: sum.splits)
  then show ?thesis by blast
qed

lemma good_tx_data:
  assumes "good_actions s (actions x)" and "(t, a') \<in> set (entry_actions (tx_data x))"
  shows "good_action s t a'"
proof -
  from entry_actions_tx_data [OF assms(2)] obtain acts a where
    a: "(t, acts) \<in> set (actions x)" "a \<in> set acts" "decode_action (Action_to_dict a) = Inr a'"
    by blast
  from assms(1) a(1,2) have "good_action s t a"
    unfolding good_actions_iff by blast
  with decode_action_add_dataobject [OF a(3)] show ?thesis
    by (simp add: good_action_def)
qed

lemma log_ok_tx_data:
  assumes "actions_wf x"
  shows "log_ok f (tx_data x)"
  unfolding log_ok_def
proof (intro impI allI)
  fix acc :: "int \<times> Transaction"
  obtain m y where acc: "acc = (m, y)" by (cases acc)
  from assms have "distinct (map fst (actions x))" "\<forall>(t, acts) \<in> set (actions x). \<forall>a \<in> set acts. variant a"
    by (auto simp: actions_wf_def variants_iff)
  from replay_tables_to_dict [OF this, of y] obtain y' where
    "replay_tables (map (\<lambda>(t, acts). (t, JArr (map Action_to_dict acts))) (actions x)) y = Inr y'"
    by blast
  then show "\<exists>acc'. replay_entry (tx_data x) acc = Inr acc'"
    by (simp add: acc replay_entry_def tx_data_def and_then_def subscript_def as_int_def as_dict_def)
qed

lemma commit_tx_kept:
  assumes "store_inv (os c)" and "client_inv (os c) c"
  shows "kept c (snd (commit_tx c))"
proof (cases "tx c")
  case None
  with assms show ?thesis by (simp add: commit_tx_def kept_refl)
next
  case (Some x)
  obtain r1 c1 where f: "flush_tables (map fst (tables x)) c = (r1, c1)"
    by (cases "flush_tables (map fst (tables x)) c")
  from flush_tables_kept [OF assms, of "map fst (tables x)"] f have k1: "kept c c1" by simp
  then have inv1: "store_inv (os c1)" "client_inv (os c1) c1"
    by (simp_all add: kept_def)
  show ?thesis
  proof (cases r1)
    case (Inl e)
    with Some f k1 show ?thesis by (simp add: commit_tx_def)
  next
    case (Inr u)
    show ?thesis
    proof (cases "tx c1")
      case None
      with Some f Inr k1 show ?thesis by (simp add: commit_tx_def)
    next
      case open1: (Some x1)
      show ?thesis
      proof (cases "wrote x1")
        case False
        with Some f Inr open1 have "snd (commit_tx c) = c1\<lparr>tx := None\<rparr>"
          by (simp add: commit_tx_def)
        moreover have "kept c1 (c1\<lparr>tx := None\<rparr>)"
          using inv1 by (simp add: kept_def extends_refl client_inv_closed)
        ultimately show ?thesis using k1 by (auto intro: kept_trans)
      next
        case True
        obtain pr s' where p: "put_if_absent (log_filename (tx_id x1)) (tx_data x1) (os c1) = (pr, s')"
          by (cases "put_if_absent (log_filename (tx_id x1)) (tx_data x1) (os c1)")
        note files = put_if_absent_files [OF p]
        show ?thesis
        proof (cases pr)
          case bad: (Inl e)
          with files have same: "files s' = files (os c1)" by simp
          from Some f Inr open1 True p bad
          have "snd (commit_tx c) = c1\<lparr>os := s'\<rparr> \<or> snd (commit_tx c) = c1\<lparr>os := s', tx := None\<rparr>"
            by (cases e) (simp_all add: commit_tx_def)
          moreover have "kept c1 (c1\<lparr>os := s'\<rparr>)"
            using inv1 same
            by (simp add: kept_def extends_same_files store_inv_same_files
                  client_inv_cong [OF _ _ client_inv_same_files [OF inv1(2) same]])
          moreover have "kept c1 (c1\<lparr>os := s', tx := None\<rparr>)"
            using inv1 same
            by (simp add: kept_def extends_same_files store_inv_same_files client_inv_closed)
          ultimately show ?thesis using k1 by (auto intro: kept_trans)
        next
          case good: (Inr v)
          with files have grown: "files s' = files (os c1) @ [(log_filename (tx_id x1), tx_data x1)]"
            by simp
          then have e: "extends (os c1) s'" by (auto simp: extends_def)
          from inv1(2) open1 have "good_actions (os c1) (actions x1)"
            by (simp add: client_inv_open)
          with e have "good_actions s' (actions x1)" by (rule good_actions_extends)
          then have "\<forall>t a. (t, a) \<in> set (entry_actions (tx_data x1)) \<longrightarrow> good_action s' t a"
            using good_tx_data by blast
          moreover from inv1(2) open1 have "actions_wf x1"
            by (simp add: client_inv_open)
          then have "log_ok (log_filename (tx_id x1)) (tx_data x1)"
            by (rule log_ok_tx_data)
          ultimately have st: "store_inv s'"
            using inv1(1) grown by (intro store_inv_extends_files [OF inv1(1) grown]) simp_all
          from Some f Inr open1 True p good
          have "snd (commit_tx c) = c1\<lparr>os := s', tx := None\<rparr>"
            by (simp add: commit_tx_def)
          moreover have "kept c1 (c1\<lparr>os := s', tx := None\<rparr>)"
            using st e by (simp add: kept_def client_inv_closed)
          ultimately show ?thesis using k1 by (auto intro: kept_trans)
        qed
      qed
    qed
  qed
qed

subsection \<open>Every reachable state is well-formed\<close>

lemma run_call_kept:
  assumes "store_inv (os c)" and "client_inv (os c) c"
  shows "kept c (run_call sz k c)"
  using assms
  by (cases k)
     (simp_all add: new_tx_kept create_table_kept write_row_kept flush_rows_kept scan_kept commit_tx_kept)

lemma step_system_inv:
  assumes "system_inv S"
  shows "system_inv (step sz i k S)"
proof -
  let ?c = "(clients S i)\<lparr>os := store S\<rparr>"
  let ?c' = "run_call sz k ?c"
  from assms have st: "store_inv (os ?c)" and all: "\<And>j. client_inv (store S) (clients S j)"
    by (simp_all add: system_inv_def)
  have "client_inv (os ?c) ?c"
    using all [of i] by (simp add: client_inv_cong [of ?c "clients S i"])
  with st have k: "kept ?c ?c'" by (rule run_call_kept)
  then have e: "extends (store S) (os ?c')" and st': "store_inv (os ?c')" and ci: "client_inv (os ?c') ?c'"
    by (simp_all add: kept_def)
  have "client_inv (os ?c') (if j = i then ?c' else clients S j)" for j
    using ci client_inv_extends [OF e all [of j]] by simp
  with st' show ?thesis
    by (simp add: system_inv_def step_def Let_def)
qed

lemma reachable_system_inv: "reachable sz S \<Longrightarrow> system_inv S"
proof (induction rule: reachable.induct)
  case (start S)
  then show ?case
    by (simp add: system_inv_def store_inv_def client_inv_closed)
next
  case (step S i k)
  then show ?case by (simp add: step_system_inv)
qed

lemma intact_exists: "intact s t n \<Longrightarrow> table_filename t n \<in> fst ` set (files s)"
  by (auto simp: intact_def load_dataobject_def and_then_def read_def
        split: sum.splits option.splits dest!: map_of_SomeD intro: image_eqI [where x = "(table_filename t n, _)"])

text \<open>
  C2: in every state reachable from the empty store by any calls of any clients
  (successful or not), for every blob in the store, in particular every committed log
  entry, and every \<open>AddDataobject\<close> action with name \<open>N\<close> and table \<open>T\<close> it holds, the
  blob \<open>_table_<T>_<N>\<close> is in the store (and is that data object).  The same holds
  for the local actions of every open transaction, so the blobs are there before
  \<open>commit_tx\<close> writes the log entry that names them.
\<close>

theorem committed_dataobjects_exist:
  assumes "reachable sz S"
  shows "(\<forall>f doc t a d. (f, doc) \<in> set (files (store S)) \<longrightarrow> (t, a) \<in> set (entry_actions doc) \<longrightarrow>
            add_dataobject a = Some d \<longrightarrow>
            table_filename (ada_table d) (ada_name d) \<in> fst ` set (files (store S)) \<and>
            intact (store S) (ada_table d) (ada_name d))
       \<and> (\<forall>i x t acts a d. tx (clients S i) = Some x \<longrightarrow> (t, acts) \<in> set (actions x) \<longrightarrow> a \<in> set acts \<longrightarrow>
            add_dataobject a = Some d \<longrightarrow>
            table_filename (ada_table d) (ada_name d) \<in> fst ` set (files (store S)))"
proof -
  from assms have inv: "system_inv S" by (rule reachable_system_inv)
  have logs: "table_filename (ada_table d) (ada_name d) \<in> fst ` set (files (store S)) \<and>
              intact (store S) (ada_table d) (ada_name d)"
    if "(f, doc) \<in> set (files (store S))" "(t, a) \<in> set (entry_actions doc)" "add_dataobject a = Some d"
    for f doc t a d
  proof -
    from inv that(1,2) have "good_action (store S) t a"
      unfolding system_inv_def store_inv_iff by blast
    with that(3) have "intact (store S) (ada_table d) (ada_name d)"
      by (simp add: good_action_def)
    then show ?thesis by (simp add: intact_exists)
  qed
  have local: "table_filename (ada_table d) (ada_name d) \<in> fst ` set (files (store S))"
    if "tx (clients S i) = Some x" "(t, acts) \<in> set (actions x)" "a \<in> set acts" "add_dataobject a = Some d"
    for i x t acts a d
  proof -
    from inv that(1) have "good_actions (store S) (actions x)"
      by (auto simp: system_inv_def client_inv_def dest: spec [of _ i])
    with that(2,3) have "good_action (store S) t a"
      unfolding good_actions_iff by blast
    with that(4) have "intact (store S) (ada_table d) (ada_name d)"
      by (simp add: good_action_def)
    then show ?thesis by (rule intact_exists)
  qed
  from logs local show ?thesis by blast
qed

lemma demo_system_store: "store demo_system = demo_store"
proof -
  let ?c0 = "new_Client (new_FileObjectStorage (\<lambda>_. None)) demo_uuids"
  have s3: "step 4 0 (WriteRow ''x'' (demo_row 1)) (step 4 0 (CreateTable ''x'' demo_cols) (step 4 0 NewTx demo_system0))
      = \<lparr>store = os (demo_writer (\<lambda>_. None)), clients = (\<lambda>_. ?c0)(0 := demo_writer (\<lambda>_. None))\<rparr>"
    by (simp add: step_def demo_system0_def demo_writer_def new_Client_def new_FileObjectStorage_def
          new_tx_def create_table_def write_row_def list_prefix_def Let_def)
  show ?thesis
    unfolding demo_system_def s3
    by (simp add: step_def demo_commit)
qed

lemma demo_system_reachable: "reachable 4 demo_system"
  unfolding demo_system_def
  by (intro reachable.step reachable.start) (simp_all add: demo_system0_def new_FileObjectStorage_def new_Client_def)

theorem committed_dataobjects_exist_witness:
  "reachable 4 demo_system \<and>
   (''_log_00000000000000000001'', demo_log_doc) \<in> set (files (store demo_system)) \<and>
   (''x'', demo_add) \<in> set (entry_actions demo_log_doc) \<and>
   add_dataobject demo_add = Some \<lparr>ada_name = ''uuid0'', ada_table = ''x''\<rparr> \<and>
   ''_table_x_uuid0'' \<in> fst ` set (files (store demo_system))"
proof -
  have a: "(''_log_00000000000000000001'', demo_log_doc) \<in> set (files (store demo_system))"
    by (simp add: demo_system_store demo_store_def)
  have b: "(''x'', demo_add) \<in> set (entry_actions demo_log_doc)"
    by (simp add: entry_actions_def demo_log_doc_def subscript_def and_then_def as_dict_def as_list_def
          List.map_filter_simps decode_demo_create decode_demo_add)
  have c: "add_dataobject demo_add = Some \<lparr>ada_name = ''uuid0'', ada_table = ''x''\<rparr>"
    by (simp add: demo_action_fields)
  from committed_dataobjects_exist [OF demo_system_reachable] a b c
  have "table_filename (ada_table \<lparr>ada_name = ''uuid0'', ada_table = ''x''\<rparr>) (ada_name \<lparr>ada_name = ''uuid0'', ada_table = ''x''\<rparr>)
          \<in> fst ` set (files (store demo_system))"
    by blast
  with demo_system_reachable a b c show ?thesis
    by (simp add: table_filename_def)
qed

subsection \<open>Cursors and later writes\<close>

lemma demo_created_eq:
  "demo_created = demo_fresh\<lparr>tx := Some \<lparr>tx_id = 1, previous_actions = [],
      actions = [(''x'', [\<lparr>add_dataobject = None, change_metadata = Some \<lparr>cma_table = ''x'', cma_columns = demo_cols\<rparr>\<rparr>])],
      tables = [(''x'', demo_cols)], unflushed_data = []\<rparr>\<rparr>"
  by (simp add: demo_created_def demo_open_eq create_table_def new_Transaction_def demo_fresh_def
        new_Client_def setdefault_append_def)

text \<open>
  C8 (as stated: any row appended by \<open>write_row\<close> after the cursor was created is
  visible to that cursor).  It is not when the table has no buffer yet: on a transaction
  that has just created table \<open>x\<close>, \<open>scan\<close> gives the cursor a list of its own; the
  row written afterwards is in the table's buffer, and the cursor yields nothing.
\<close>

theorem cursor_misses_first_row_counterexample:
  "scan ''x'' demo_created = (Inr demo_cursor, demo_scanned) \<and>
   fst (write_row 4 ''x'' (demo_row 1) demo_scanned) = Inr () \<and>
   buffer ''x'' demo_after_write = [demo_row 1] \<and>
   rows_of 1 demo_cursor demo_after_write = Some (Inr [])"
proof -
  have sc: "scan ''x'' demo_created = (Inr demo_cursor, demo_created\<lparr>heap := (\<lambda>_. []), next_ref := 1\<rparr>)"
    by (simp add: demo_created_eq scan_def Let_def get_or_empty_def List.map_filter_simps demo_cursor_def
          demo_fresh_def new_Client_def fun_eq_iff)
  then have scanned: "demo_scanned = demo_created\<lparr>heap := (\<lambda>_. []), next_ref := 1\<rparr>"
    by (simp add: demo_scanned_def)
  have wr: "write_row 4 ''x'' (demo_row 1) demo_scanned =
      (Inr (), demo_scanned\<lparr>tx := Some (the (tx demo_scanned)\<lparr>unflushed_data := [(''x'', 1)]\<rparr>),
                           heap := (\<lambda>_. [])(1 := [demo_row 1]), next_ref := 2\<rparr>)"
    by (simp add: scanned demo_created_eq write_row_def Let_def demo_fresh_def new_Client_def)
  then have after: "demo_after_write = demo_scanned\<lparr>tx := Some (the (tx demo_scanned)\<lparr>unflushed_data := [(''x'', 1)]\<rparr>),
                           heap := (\<lambda>_. [])(1 := [demo_row 1]), next_ref := 2\<rparr>"
    by (simp add: demo_after_write_def)
  have buf: "buffer ''x'' demo_after_write = [demo_row 1]"
    by (simp add: after buffer_def)
  have "ScanIterator_next demo_cursor demo_after_write = (Inl StopIteration, demo_cursor)"
    by (simp add: ScanIterator_next_def after demo_cursor_def next_dataobject_exhausted)
  then have "rows_of 1 demo_cursor demo_after_write = Some (Inr [])"
    by (simp add: rows_of.simps)
  with sc scanned wr buf show ?thesis by simp
qed

lemma flush_rows_heap:
  assumes "flush_rows t c = (res, c')" and "r < next_ref c"
  shows "heap c' r = heap c r"
proof (cases "tx c")
  case None
  with assms show ?thesis by (simp add: flush_rows_def)
next
  case (Some x)
  show ?thesis
  proof (cases "map_of (unflushed_data x) t = None \<or> (\<exists>r. map_of (unflushed_data x) t = Some r \<and> heap c r = [])")
    case True
    from flush_rows_idle [OF Some True] assms show ?thesis by simp
  next
    case False
    then obtain r' where r': "map_of (unflushed_data x) t = Some r'" "heap c r' \<noteq> []" by auto
    obtain pr s' where p: "put_if_absent (table_filename t (uuids c (drawn c))) (flush_blob t r' c) (os c) = (pr, s')"
      by (cases "put_if_absent (table_filename t (uuids c (drawn c))) (flush_blob t r' c) (os c)")
    from flush_rows_busy [OF Some r' p] assms show ?thesis
      by (cases pr) (auto simp: flushed_def)
  qed
qed

lemma write_row_heap:
  assumes "tx c = Some x" and "t \<in> fst ` set (tables x)"
    and "write_row sz t row c = (res, c2)" and "r < next_ref c"
  shows "heap c2 r = (if map_of (unflushed_data x) t = Some r then heap c r @ [row] else heap c r)"
proof -
  have "\<exists>c1. (write_row sz t row c = flush_rows t c1 \<or> write_row sz t row c = (Inr (), c1)) \<and>
          next_ref c \<le> next_ref c1 \<and>
          heap c1 r = (if map_of (unflushed_data x) t = Some r then heap c r @ [row] else heap c r)"
  proof (cases "map_of (unflushed_data x) t")
    case None
    let ?x1 = "x\<lparr>unflushed_data := AList.update t (next_ref c) (unflushed_data x)\<rparr>"
    let ?c1 = "c\<lparr>tx := Some ?x1, next_ref := Suc (next_ref c), heap := (heap c)(next_ref c := [row])\<rparr>"
    have "write_row sz t row c = flush_rows t ?c1 \<or> write_row sz t row c = (Inr (), ?c1)"
      using assms(1,2) None by (simp add: write_row_def Let_def)
    with None assms(4) show ?thesis
      by (intro exI [of _ ?c1]) simp
  next
    case (Some r')
    let ?c1 = "c\<lparr>heap := (heap c)(r' := heap c r' @ [row])\<rparr>"
    have "write_row sz t row c = flush_rows t ?c1 \<or> write_row sz t row c = (Inr (), ?c1)"
      using assms(1,2) Some by (simp add: write_row_def Let_def)
    with Some show ?thesis
      by (intro exI [of _ ?c1]) auto
  qed
  then obtain c1 where run: "write_row sz t row c = flush_rows t c1 \<or> write_row sz t row c = (Inr (), c1)"
    and nr: "next_ref c \<le> next_ref c1"
    and h: "heap c1 r = (if map_of (unflushed_data x) t = Some r then heap c r @ [row] else heap c r)"
    by blast
  from assms(4) nr have "r < next_ref c1" by simp
  with run assms(3) flush_rows_heap [of t c1 res c2 r] have "heap c2 r = heap c1 r"
    by auto
  with h show ?thesis by simp
qed

text \<open>
  C8 (amended): the cursor aliases the table's buffer only if the table has one when
  the cursor is created.  For an open transaction (whose buffer addresses have all been
  allocated) and a cursor just returned by \<open>scan\<close>: if \<open>unflushed_data\<close> has an entry
  for the table, the list the cursor reads is the table's buffer, so after a
  \<open>write_row\<close> (whether or not it goes on to flush) that list is the old rows followed
  by the new row, and the cursor, once past the old rows, returns the new row; if
  \<open>unflushed_data\<close> has no entry for the table, the cursor's list is a fresh empty list
  that the transaction never sees, and it is still empty after the \<open>write_row\<close>.
\<close>

theorem cursor_aliases_existing_buffer:
  assumes "tx c = Some x" and "t \<in> fst ` set (tables x)" and "refs_ok c"
    and "scan t c = (Inr it, c1)" and "write_row sz t row c1 = (res, c2)"
  shows "(map_of (unflushed_data x) t \<noteq> None \<longrightarrow>
            map_of (unflushed_data x) t = Some (unflushed_rows it) \<and>
            heap c2 (unflushed_rows it) = buffer t c @ [row] \<and>
            fst (ScanIterator_next (it\<lparr>unflushed_row_pointer := length (buffer t c)\<rparr>) c2) = Inr row)
       \<and> (map_of (unflushed_data x) t = None \<longrightarrow>
            heap c2 (unflushed_rows it) = [] \<and>
            map_of (unflushed_data x) t \<noteq> Some (unflushed_rows it))"
proof (cases "map_of (unflushed_data x) t")
  case None
  let ?n = "next_ref c"
  from scan_open [OF assms(1), of t] assms(4) None
  have it: "unflushed_rows it = ?n" and c1: "c1 = c\<lparr>heap := (heap c)(?n := []), next_ref := Suc ?n\<rparr>"
    by simp_all
  from c1 assms(1) have tx1: "tx c1 = Some x" and n1: "?n < next_ref c1" and h1: "heap c1 ?n = []"
    by simp_all
  from None have fresh: "map_of (unflushed_data x) t \<noteq> Some ?n" by simp
  from write_row_heap [OF tx1 assms(2,5) n1] fresh h1 have "heap c2 ?n = []" by simp
  with it None show ?thesis by simp
next
  case (Some r)
  from scan_open [OF assms(1), of t] assms(4) Some
  have it: "unflushed_rows it = r" and c1: "c1 = c" by simp_all
  from Some have "(t, r) \<in> set (unflushed_data x)" by (rule map_of_SomeD)
  with assms(1,3) have r: "r < next_ref c"
    by (auto simp: refs_ok_def list_all_iff)
  from write_row_heap [OF assms(1,2) assms(5) [unfolded c1] r] Some assms(1)
  have h: "heap c2 r = buffer t c @ [row]"
    by (simp add: buffer_def)
  then have "ScanIterator_next (it\<lparr>unflushed_row_pointer := length (buffer t c)\<rparr>) c2
      = (Inr row, it\<lparr>unflushed_row_pointer := Suc (length (buffer t c))\<rparr>)"
    using it by (simp add: ScanIterator_next_def)
  with h it Some show ?thesis by simp
qed

theorem cursor_aliases_existing_buffer_witness:
  "tx (demo_writer (\<lambda>_. None)) = Some demo_writer_tx \<and> ''x'' \<in> fst ` set (tables demo_writer_tx) \<and>
   refs_ok (demo_writer (\<lambda>_. None)) \<and>
   scan ''x'' (demo_writer (\<lambda>_. None)) = (Inr demo_cursor, demo_writer (\<lambda>_. None)) \<and>
   heap (snd (write_row 4 ''x'' (demo_row 2) (demo_writer (\<lambda>_. None)))) 0 = [demo_row 1, demo_row 2] \<and>
   fst (ScanIterator_next (demo_cursor\<lparr>unflushed_row_pointer := 1\<rparr>)
          (snd (write_row 4 ''x'' (demo_row 2) (demo_writer (\<lambda>_. None))))) = Inr (demo_row 2)"
proof -
  let ?c = "demo_writer (\<lambda>_. None)"
  have a: "tx ?c = Some demo_writer_tx" by (simp add: demo_writer_eq)
  have b: "''x'' \<in> fst ` set (tables demo_writer_tx)" by (simp add: demo_writer_tx_def)
  have r: "refs_ok ?c" by (simp add: refs_ok_def demo_writer_eq demo_writer_tx_def)
  have s: "scan ''x'' ?c = (Inr demo_cursor, ?c)"
    by (simp add: scan_open [OF a] demo_writer_tx_def get_or_empty_def List.map_filter_simps demo_cursor_def)
  obtain res c2 where w: "write_row 4 ''x'' (demo_row 2) ?c = (res, c2)"
    by (cases "write_row 4 ''x'' (demo_row 2) ?c")
  have m: "map_of (unflushed_data demo_writer_tx) ''x'' \<noteq> None"
    by (simp add: demo_writer_tx_def)
  have buf: "buffer ''x'' ?c = [demo_row 1]"
    by (simp add: buffer_def demo_writer_eq demo_writer_tx_def)
  from cursor_aliases_existing_buffer [OF a b r s w] m buf
  have "heap c2 (unflushed_rows demo_cursor) = [demo_row 1, demo_row 2]"
    "fst (ScanIterator_next (demo_cursor\<lparr>unflushed_row_pointer := 1\<rparr>) c2) = Inr (demo_row 2)"
    by simp_all
  with a b r s w show ?thesis
    by (simp add: demo_cursor_def)
qed

subsection \<open>What the invariants give in every reachable state\<close>

text \<open>The side conditions of the theorems on \<open>scan\<close>, on cursors and on serialization hold in
  every reachable state.\<close>

lemma reachable_refs_ok:
  assumes "reachable sz S"
  shows "refs_ok (clients S i)"
  using reachable_system_inv [OF assms] by (simp add: system_inv_def client_inv_def)

lemma reachable_actions_wf:
  assumes "reachable sz S" and "tx (clients S i) = Some x"
  shows "distinct (map fst (actions x)) \<and> (\<forall>(t, acts) \<in> set (actions x). \<forall>a \<in> set acts. variant a)"
proof -
  from reachable_system_inv [OF assms(1)] assms(2) have "actions_wf x"
    by (auto simp: system_inv_def client_inv_def dest: spec [of _ i])
  then show ?thesis
    by (auto simp: actions_wf_def variants_iff)
qed

lemma get_or_empty_mem:
  assumes "a \<in> set (get_or_empty d t)"
  shows "\<exists>acts. (t, acts) \<in> set d \<and> a \<in> set acts"
proof (cases "map_of d t")
  case None
  with assms show ?thesis by (simp add: get_or_empty_def)
next
  case (Some acts)
  then have "(t, acts) \<in> set d" by (rule map_of_SomeD)
  with assms Some show ?thesis by (auto simp: get_or_empty_def)
qed

lemma reachable_scan_intact:
  assumes "reachable sz S" and "tx (clients S i) = Some x"
  shows "\<forall>n \<in> set (scan_names x t). intact (store S) t n"
proof
  fix n assume "n \<in> set (scan_names x t)"
  then have "\<exists>a d. (a \<in> set (get_or_empty (previous_actions x) t) \<or> a \<in> set (get_or_empty (actions x) t)) \<and>
      add_dataobject a = Some d \<and> n = ada_name d"
    by (auto simp: scan_names_def List.map_filter_def)
  then obtain a d where a: "a \<in> set (get_or_empty (previous_actions x) t) \<or> a \<in> set (get_or_empty (actions x) t)"
    and d: "add_dataobject a = Some d" "n = ada_name d"
    by blast
  from reachable_system_inv [OF assms(1)] assms(2)
  have "good_actions (store S) (previous_actions x)" "good_actions (store S) (actions x)"
    by (auto simp: system_inv_def client_inv_def dest: spec [of _ i])
  with a have "good_action (store S) t a"
    unfolding good_actions_iff
    using get_or_empty_mem [of a "previous_actions x" t] get_or_empty_mem [of a "actions x" t] by blast
  with d show "intact (store S) t n"
    by (simp add: good_action_def)
qed

text \<open>On a reachable store every file under the log prefix replays, so \<open>new_tx\<close> returns.\<close>

lemma replay_log_returns:
  assumes "\<forall>f \<in> set fs. \<exists>doc. (f, doc) \<in> set (files s) \<and> read f s = Inr doc \<and> startswith f ''_log_''"
    and "\<forall>f doc. (f, doc) \<in> set (files s) \<longrightarrow> log_ok f doc"
  shows "\<exists>acc'. replay_log fs s acc = Inr acc'"
  using assms(1)
proof (induction fs arbitrary: acc)
  case Nil
  then show ?case by simp
next
  case (Cons f fs)
  then obtain doc where doc: "(f, doc) \<in> set (files s)" "read f s = Inr doc" "startswith f ''_log_''"
    by auto
  with assms(2) obtain acc1 where "replay_entry doc acc = Inr acc1"
    unfolding log_ok_def by blast
  moreover from Cons.prems have "\<exists>acc'. replay_log fs s acc1 = Inr acc'"
    by (intro Cons.IH) simp
  ultimately show ?case using doc(2) by (auto simp: and_then_def)
qed

lemma new_tx_returns:
  assumes "store_inv (os c)" and "tx c = None"
  shows "\<exists>c'. new_tx c = (Inr (), c')"
proof -
  have "\<exists>doc. (f, doc) \<in> set (files (os c)) \<and> read f (os c) = Inr doc \<and> startswith f ''_log_''"
    if "f \<in> set (sort (list_prefix ''_log_'' (os c)))" for f
  proof -
    from that have "f \<in> fst ` set (files (os c))" and p: "startswith f ''_log_''"
      by (auto simp: list_prefix_def)
    then obtain doc where "map_of (files (os c)) f = Some doc"
      by (cases "map_of (files (os c)) f") (auto simp: map_of_eq_None_iff)
    with p show ?thesis
      by (auto simp: read_def dest: map_of_SomeD)
  qed
  moreover from assms(1) have "\<forall>f doc. (f, doc) \<in> set (files (os c)) \<longrightarrow> log_ok f doc"
    unfolding store_inv_iff by blast
  ultimately obtain acc' where
    "replay_log (sort (list_prefix ''_log_'' (os c))) (os c) (0, new_Transaction 0) = Inr acc'"
    using replay_log_returns by blast
  with assms(2) show ?thesis
    by (cases acc') (simp add: new_tx_def)
qed

lemma reachable_new_tx_returns:
  assumes "reachable sz S" and "tx (clients S i) = None"
  shows "\<exists>c'. new_tx ((clients S i)\<lparr>os := store S\<rparr>) = (Inr (), c')"
  using reachable_system_inv [OF assms(1)] assms(2)
  by (intro new_tx_returns) (simp_all add: system_inv_def)

end
